theory Spec2Isabelle
  imports
    Main
    "HOL-Library.Sublist"
    "HOL-Library.AList"
    "HOL-Library.Word"
    "HOL-Library.Char_ord"
    "HOL-Library.List_Lexorder"
begin

unbundle bit_operations_syntax

section \<open>The file system that \<^verbatim>\<open>build_mods.py\<close> works on\<close>

text \<open>
  \<^verbatim>\<open>build_mods.py\<close> has no data of its own: its whole state is the file system. A path is
  the list of its components below the root, and the file system is a table from the
  canonical place of every node to what is there. A node is a regular file with its
  bytes, a directory, a symbolic link, or a directory junction (the Windows reparse point
  made by \<^verbatim>\<open>mklink /J\<close>); both kinds of link hold the absolute path they point to.
  The table is an association list, so that a directory can be listed, and is read
  with \<^const>\<open>map_of\<close>.
\<close>

type_synonym name = string
type_synonym path = "name list"
type_synonym bytes = string

datatype node = File bytes | Dir | Symlink path | Junction path

type_synonym fs = "(path \<times> node) list"

datatype os_name = Posix | Nt

datatype error =
    FileNotFoundError
  | FileExistsError
  | NotADirectoryError
  | IsADirectoryError
  | PermissionError
  | OSError
  | SameFileError
  | ShutilError
  | CalledProcessError
  | BadZipFile
  | RecursionError

text \<open>
  Every operation runs on a file system and gives back the file system it leaves, also
  when it raises: a Python exception does not undo what was done before it.
\<close>

type_synonym 'a io = "fs \<Rightarrow> (error + 'a) \<times> fs"

definition ok :: "'a \<Rightarrow> 'a io" where
  "ok x = (\<lambda>s. (Inr x, s))"

definition raise :: "error \<Rightarrow> 'a io" where
  "raise e = (\<lambda>s. (Inl e, s))"

definition and_then :: "'a io \<Rightarrow> ('a \<Rightarrow> 'b io) \<Rightarrow> 'b io" where
  "and_then m f = (\<lambda>s. case m s of (Inl e, s') \<Rightarrow> (Inl e, s') | (Inr x, s') \<Rightarrow> f x s')"

text \<open>A \<^verbatim>\<open>for\<close> loop whose body may raise: the first exception ends the loop.\<close>

fun for_each :: "'a list \<Rightarrow> ('a \<Rightarrow> unit io) \<Rightarrow> unit io" where
  "for_each [] body = ok ()"
| "for_each (x # xs) body = and_then (body x) (\<lambda>_. for_each xs body)"

text \<open>The same loop when each round gives a list: the lists are put together in order.\<close>

fun collect :: "'a list \<Rightarrow> ('a \<Rightarrow> 'b list io) \<Rightarrow> 'b list io" where
  "collect [] body = ok []"
| "collect (x # xs) body =
     and_then (body x) (\<lambda>ys. and_then (collect xs body) (\<lambda>zs. ok (ys @ zs)))"

subsection \<open>Looking a path up\<close>

text \<open>The root always exists and is a directory; it has no row in the table.\<close>

definition node_at :: "fs \<Rightarrow> path \<Rightarrow> node option" where
  "node_at s p = (if p = [] then Some Dir else map_of s p)"

text \<open>
  \<open>walk_path cr n s cur rest\<close> walks the components \<open>rest\<close> from the directory \<open>cur\<close>
  and follows every link it meets, as the kernel does. It gives the canonical place of
  the node it reaches, or \<open>None\<close> when a component is missing, when a component before
  the last is a regular file, or when more than \<open>n\<close> links were followed (the kernel's
  \<^verbatim>\<open>ELOOP\<close>). With \<open>cr\<close> the last component may be missing: the place where
  \<^verbatim>\<open>open(p, "wb")\<close> creates the file.
\<close>

fun walk_path :: "bool \<Rightarrow> nat \<Rightarrow> fs \<Rightarrow> path \<Rightarrow> path \<Rightarrow> path option" where
  "walk_path cr n s cur [] = Some cur"
| "walk_path cr n s cur (c # cs) =
     (case map_of s (cur @ [c]) of
        None \<Rightarrow> if cr \<and> cs = [] then Some (cur @ [c]) else None
      | Some (File b) \<Rightarrow> if cs = [] then Some (cur @ [c]) else None
      | Some Dir \<Rightarrow> walk_path cr n s (cur @ [c]) cs
      | Some (Symlink t) \<Rightarrow> (case n of 0 \<Rightarrow> None | Suc m \<Rightarrow> walk_path cr m s [] (t @ cs))
      | Some (Junction t) \<Rightarrow> (case n of 0 \<Rightarrow> None | Suc m \<Rightarrow> walk_path cr m s [] (t @ cs)))"

definition max_links :: nat where
  "max_links = 40"

definition realpath :: "fs \<Rightarrow> path \<Rightarrow> path option" where
  "realpath s p = walk_path False max_links s [] p"

definition write_loc :: "fs \<Rightarrow> path \<Rightarrow> path option" where
  "write_loc s p = walk_path True max_links s [] p"

text \<open>\<^verbatim>\<open>os.stat\<close>: the node a path leads to, links followed.\<close>

definition stat :: "fs \<Rightarrow> path \<Rightarrow> node option" where
  "stat s p = (case realpath s p of None \<Rightarrow> None | Some l \<Rightarrow> node_at s l)"

text \<open>
  The place of the directory entry a path names: the parent is resolved, the last
  component is not followed. This is where \<^verbatim>\<open>lstat\<close>, \<^verbatim>\<open>unlink\<close>, \<^verbatim>\<open>rmdir\<close>,
  \<^verbatim>\<open>mkdir\<close> and \<^verbatim>\<open>symlink\<close> work.
\<close>

definition entry_loc :: "fs \<Rightarrow> path \<Rightarrow> path option" where
  "entry_loc s p =
     (if p = [] then Some []
      else case realpath s (butlast p) of
             None \<Rightarrow> None
           | Some d \<Rightarrow> if node_at s d = Some Dir then Some (d @ [last p]) else None)"

definition lstat :: "fs \<Rightarrow> path \<Rightarrow> node option" where
  "lstat s p = (case entry_loc s p of None \<Rightarrow> None | Some l \<Rightarrow> node_at s l)"

text \<open>\<^verbatim>\<open>Path.exists()\<close>, \<^verbatim>\<open>Path.is_dir()\<close> follow links; \<^verbatim>\<open>Path.is_symlink()\<close> does not.\<close>

definition path_exists :: "fs \<Rightarrow> path \<Rightarrow> bool" where
  "path_exists s p = (stat s p \<noteq> None)"

definition is_dir :: "fs \<Rightarrow> path \<Rightarrow> bool" where
  "is_dir s p = (stat s p = Some Dir)"

definition is_symlink :: "fs \<Rightarrow> path \<Rightarrow> bool" where
  "is_symlink s p = (case lstat s p of Some (Symlink t) \<Rightarrow> True | _ \<Rightarrow> False)"

text \<open>The names in a directory, given by its canonical place.\<close>

definition children :: "fs \<Rightarrow> path \<Rightarrow> name list" where
  "children s d = remdups (map (\<lambda>q. last q) (filter (\<lambda>q. q \<noteq> [] \<and> butlast q = d) (map fst s)))"

subsection \<open>Removing nodes\<close>

text \<open>
  \<^verbatim>\<open>os.unlink\<close> removes a file or a link, never what the link points to; on Windows it
  also removes a junction. \<^verbatim>\<open>os.rmdir\<close> removes an empty directory or a junction.
  \<^verbatim>\<open>shutil.rmtree\<close> refuses a link and removes a directory with everything below it;
  links below it are removed as links.
\<close>

definition os_unlink :: "path \<Rightarrow> unit io" where
  "os_unlink p = (\<lambda>s.
     case entry_loc s p of
       None \<Rightarrow> (Inl FileNotFoundError, s)
     | Some l \<Rightarrow>
         (case node_at s l of
            None \<Rightarrow> (Inl FileNotFoundError, s)
          | Some Dir \<Rightarrow> (Inl IsADirectoryError, s)
          | Some _ \<Rightarrow> (Inr (), AList.delete l s)))"

definition os_rmdir :: "path \<Rightarrow> unit io" where
  "os_rmdir p = (\<lambda>s.
     case entry_loc s p of
       None \<Rightarrow> (Inl FileNotFoundError, s)
     | Some l \<Rightarrow>
         (case node_at s l of
            None \<Rightarrow> (Inl FileNotFoundError, s)
          | Some Dir \<Rightarrow>
              if l \<noteq> [] \<and> children s l = [] then (Inr (), AList.delete l s)
              else (Inl OSError, s)
          | Some (Junction t) \<Rightarrow> (Inr (), AList.delete l s)
          | Some _ \<Rightarrow> (Inl NotADirectoryError, s)))"

definition shutil_rmtree :: "path \<Rightarrow> unit io" where
  "shutil_rmtree p = (\<lambda>s.
     case entry_loc s p of
       None \<Rightarrow> (Inl FileNotFoundError, s)
     | Some l \<Rightarrow>
         (case node_at s l of
            None \<Rightarrow> (Inl FileNotFoundError, s)
          | Some Dir \<Rightarrow>
              if l = [] then (Inl PermissionError, s)
              else (Inr (), filter (\<lambda>(q, n). \<not> prefix l q) s)
          | Some (File b) \<Rightarrow> (Inl NotADirectoryError, s)
          | Some _ \<Rightarrow> (Inl OSError, s)))"

subsection \<open>The path classifier and the safe remover\<close>

text \<open>
  \<^verbatim>\<open>GetFileAttributesW\<close> reads the attributes of the entry itself, without following it,
  and answers \<^verbatim>\<open>INVALID_FILE_ATTRIBUTES\<close> when there is none.
\<close>

definition FILE_ATTRIBUTE_REPARSE_POINT :: "32 word" where
  "FILE_ATTRIBUTE_REPARSE_POINT = 0x0400"

definition INVALID_FILE_ATTRIBUTES :: "32 word" where
  "INVALID_FILE_ATTRIBUTES = 0xFFFFFFFF"

fun node_attributes :: "node \<Rightarrow> 32 word" where
  "node_attributes (File b) = 0x20"
| "node_attributes Dir = 0x10"
| "node_attributes (Symlink t) = 0x400"
| "node_attributes (Junction t) = 0x410"

definition GetFileAttributesW :: "fs \<Rightarrow> path \<Rightarrow> 32 word" where
  "GetFileAttributesW s p =
     (case lstat s p of None \<Rightarrow> INVALID_FILE_ATTRIBUTES | Some n \<Rightarrow> node_attributes n)"

definition is_windows_reparse_point :: "os_name \<Rightarrow> fs \<Rightarrow> path \<Rightarrow> bool" where
  "is_windows_reparse_point os_nm s p =
     (if os_nm \<noteq> Nt then False
      else let attrs = GetFileAttributesW s p in
        if attrs = INVALID_FILE_ATTRIBUTES then False
        else (attrs AND FILE_ATTRIBUTE_REPARSE_POINT) \<noteq> 0)"

definition remove_existing_path :: "os_name \<Rightarrow> path \<Rightarrow> unit io" where
  "remove_existing_path os_nm p = (\<lambda>s.
     if \<not> path_exists s p \<and> \<not> is_symlink s p \<and> \<not> is_windows_reparse_point os_nm s p
     then (Inr (), s)
     else if is_symlink s p then os_unlink p s
     else if is_dir s p then
       (if is_windows_reparse_point os_nm s p then os_rmdir p s
        else shutil_rmtree p s)
     else os_unlink p s)"

subsection \<open>Creating nodes\<close>

text \<open>
  \<^verbatim>\<open>os.mkdir\<close> makes one directory: the parent has to be a directory and the name has
  to be free.
\<close>

definition os_mkdir :: "path \<Rightarrow> unit io" where
  "os_mkdir p = (\<lambda>s.
     if p = [] then (Inl FileExistsError, s)
     else case realpath s (butlast p) of
            None \<Rightarrow> (Inl FileNotFoundError, s)
          | Some d \<Rightarrow>
              if node_at s d \<noteq> Some Dir then (Inl NotADirectoryError, s)
              else if node_at s (d @ [last p]) \<noteq> None then (Inl FileExistsError, s)
              else (Inr (), AList.update (d @ [last p]) Dir s))"

text \<open>
  \<^verbatim>\<open>Path.mkdir(parents=False, exist_ok=e)\<close> and \<^verbatim>\<open>Path.mkdir(parents=True, exist_ok=e)\<close>,
  as pathlib writes them: \<^verbatim>\<open>os.mkdir\<close> is tried first; a missing parent makes the
  parents and tries again; any other failure is forgiven when \<^verbatim>\<open>exist_ok\<close> is set and
  the path is a directory.
\<close>

definition mkdir_plain :: "bool \<Rightarrow> path \<Rightarrow> unit io" where
  "mkdir_plain exist_ok p = (\<lambda>s.
     case os_mkdir p s of
       (Inr u, s') \<Rightarrow> (Inr (), s')
     | (Inl e, s') \<Rightarrow>
         if e \<noteq> FileNotFoundError \<and> exist_ok \<and> is_dir s' p then (Inr (), s')
         else (Inl e, s'))"

fun mkdir_parents :: "bool \<Rightarrow> path \<Rightarrow> unit io" where
  "mkdir_parents exist_ok p s =
     (case os_mkdir p s of
        (Inr u, s') \<Rightarrow> (Inr (), s')
      | (Inl e, s') \<Rightarrow>
          if e = FileNotFoundError then
            (if p = [] then (Inl e, s')
             else case mkdir_parents True (butlast p) s' of
                    (Inl e', s'') \<Rightarrow> (Inl e', s'')
                  | (Inr u, s'') \<Rightarrow> mkdir_plain exist_ok p s'')
          else if exist_ok \<and> is_dir s' p then (Inr (), s')
          else (Inl e, s'))"

text \<open>\<^verbatim>\<open>os.makedirs(p)\<close> with \<^verbatim>\<open>exist_ok=False\<close>, as \<^verbatim>\<open>shutil.copytree\<close> calls it.\<close>

fun os_makedirs :: "path \<Rightarrow> unit io" where
  "os_makedirs p s =
     (case (if p \<noteq> [] \<and> \<not> path_exists s (butlast p)
            then (case os_makedirs (butlast p) s of
                    (Inl e, s') \<Rightarrow> if e = FileExistsError then (Inr (), s') else (Inl e, s')
                  | (Inr u, s') \<Rightarrow> (Inr (), s'))
            else (Inr (), s)) of
        (Inl e, s') \<Rightarrow> (Inl e, s')
      | (Inr u, s') \<Rightarrow> os_mkdir p s')"

text \<open>
  \<^verbatim>\<open>os.scandir\<close> and \<^verbatim>\<open>Path.iterdir\<close>: the names in the directory the path leads to.
\<close>

definition scandir :: "fs \<Rightarrow> path \<Rightarrow> error + name list" where
  "scandir s p =
     (case realpath s p of
        None \<Rightarrow> Inl FileNotFoundError
      | Some d \<Rightarrow> if node_at s d = Some Dir then Inr (children s d) else Inl NotADirectoryError)"

text \<open>
  \<^verbatim>\<open>open(p, "wb")\<close> followed by writing \<open>b\<close>: the file is created or replaced at the
  place the path leads to.
\<close>

definition write_file :: "path \<Rightarrow> bytes \<Rightarrow> unit io" where
  "write_file p b = (\<lambda>s.
     case write_loc s p of
       None \<Rightarrow> (Inl FileNotFoundError, s)
     | Some l \<Rightarrow>
         if node_at s l = Some Dir then (Inl IsADirectoryError, s)
         else (Inr (), AList.update l (File b) s))"

text \<open>
  \<^verbatim>\<open>shutil.copy2(src, dst)\<close>: a destination that is a directory stands for the file of
  the source's name inside it; copying a file onto itself is refused; the source is read
  through links and the destination written through links. The modification time that
  \<^verbatim>\<open>copy2\<close> carries over is not part of a node here.
\<close>

definition shutil_copy2 :: "path \<Rightarrow> path \<Rightarrow> unit io" where
  "shutil_copy2 src dst = (\<lambda>s.
     let dst' = (if is_dir s dst \<and> src \<noteq> [] then dst @ [last src] else dst) in
     if realpath s src \<noteq> None \<and> realpath s src = realpath s dst' then (Inl SameFileError, s)
     else case stat s src of
            None \<Rightarrow> (Inl FileNotFoundError, s)
          | Some (File b) \<Rightarrow> write_file dst' b s
          | Some Dir \<Rightarrow> (Inl IsADirectoryError, s)
          | Some _ \<Rightarrow> (Inl OSError, s))"

text \<open>
  What the platform allows. \<^verbatim>\<open>os.symlink\<close> needs a privilege on Windows, and
  \<^verbatim>\<open>cmd /c mklink /J\<close> is a child process that may fail for reasons of its own; whether
  they are granted is a parameter. \<open>zip_members\<close> stands for the zip reader: it gives the
  members of an archive, in the order stored, or nothing when the bytes are no archive.
\<close>

datatype member = MFile path bytes | MDir path

record env =
  builder_dir :: path
  os_name :: os_name
  symlink_privilege :: bool
  mklink_works :: bool
  zip_members :: "bytes \<Rightarrow> member list option"

definition os_symlink :: "env \<Rightarrow> path \<Rightarrow> path \<Rightarrow> unit io" where
  "os_symlink e target dest = (\<lambda>s.
     if \<not> symlink_privilege e then (Inl OSError, s)
     else case entry_loc s dest of
            None \<Rightarrow> (Inl FileNotFoundError, s)
          | Some l \<Rightarrow>
              if node_at s l \<noteq> None then (Inl FileExistsError, s)
              else (Inr (), AList.update l (Symlink target) s))"

definition mklink_J :: "env \<Rightarrow> path \<Rightarrow> path \<Rightarrow> unit io" where
  "mklink_J e dest target = (\<lambda>s.
     if \<not> mklink_works e then (Inl CalledProcessError, s)
     else case entry_loc s dest of
            None \<Rightarrow> (Inl CalledProcessError, s)
          | Some l \<Rightarrow>
              if node_at s l \<noteq> None then (Inl CalledProcessError, s)
              else (Inr (), AList.update l (Junction target) s))"

text \<open>
  \<^verbatim>\<open>shutil.copytree(src, dst)\<close> with its defaults: the source is listed, the
  destination is made (it must not exist), and every entry is copied, a directory (or a
  link to one) by a recursive call and anything else by \<^verbatim>\<open>copy2\<close>. A failure of
  one entry does not stop the others: the failures are collected and raised at the end.
  The first argument bounds the depth of the recursion, as the interpreter does.
\<close>

definition recursion_limit :: nat where
  "recursion_limit = 1000"

primrec copytree :: "nat \<Rightarrow> path \<Rightarrow> path \<Rightarrow> unit io" where
  "copytree 0 src dst = raise RecursionError"
| "copytree (Suc k) src dst = (\<lambda>s.
     case scandir s src of
       Inl e \<Rightarrow> (Inl e, s)
     | Inr names \<Rightarrow>
         (case os_makedirs dst s of
            (Inl e, s1) \<Rightarrow> (Inl e, s1)
          | (Inr u, s1) \<Rightarrow>
              (case fold (\<lambda>n (failed, s').
                      case (if is_dir s' (src @ [n]) then copytree k (src @ [n]) (dst @ [n]) s'
                            else shutil_copy2 (src @ [n]) (dst @ [n]) s') of
                        (Inl e, s'') \<Rightarrow> (True, s'')
                      | (Inr u, s'') \<Rightarrow> (failed, s''))
                    names (False, s1) of
                 (failed, s2) \<Rightarrow> if failed then (Inl ShutilError, s2) else (Inr (), s2))))"

definition shutil_copytree :: "path \<Rightarrow> path \<Rightarrow> unit io" where
  "shutil_copytree src dst = copytree recursion_limit src dst"

section \<open>The program\<close>

subsection \<open>Paths and folders\<close>

text \<open>
  \<^verbatim>\<open>builder_dir\<close> is the resolved directory of the script; the other three paths are
  computed from it, as in the source. \<^verbatim>\<open>Path.parent\<close> of the root is the root.
\<close>

definition mods_dir :: "env \<Rightarrow> path" where
  "mods_dir e = builder_dir e @ [''mods'']"

definition output_dir :: "env \<Rightarrow> path" where
  "output_dir e = builder_dir e @ [''output'']"

definition game_dir :: "env \<Rightarrow> path" where
  "game_dir e = butlast (builder_dir e)"

definition MANAGED_TOP_FOLDERS :: "name set" where
  "MANAGED_TOP_FOLDERS = {''audio'', ''data'', ''levels'', ''shaders'', ''swfs'', ''textures''}"

subsection \<open>The directory linker\<close>

text \<open>
  \<^verbatim>\<open>Path.resolve()\<close> of a path that leads somewhere is its canonical place. The answer
  is the text of the source's \<^verbatim>\<open>return\<close>.
\<close>

definition resolve :: "fs \<Rightarrow> path \<Rightarrow> path" where
  "resolve s p = (case realpath s p of None \<Rightarrow> p | Some l \<Rightarrow> l)"

definition try_create_dir_link :: "env \<Rightarrow> path \<Rightarrow> path \<Rightarrow> string io" where
  "try_create_dir_link e src_dir dest = (\<lambda>s.
     let src_dir = resolve s src_dir in
     case os_symlink e src_dir dest s of
       (Inr u, s1) \<Rightarrow> (Inr ''symlink'', s1)
     | (Inl err, s1) \<Rightarrow>
         if os_name e \<noteq> Nt then (Inl err, s1)
         else (case mklink_J e dest src_dir s1 of
                 (Inr u, s2) \<Rightarrow> (Inr ''junction'', s2)
               | (Inl err2, s2) \<Rightarrow>
                   (case shutil_copytree src_dir dest s2 of
                      (Inl err3, s3) \<Rightarrow> (Inl err3, s3)
                    | (Inr u, s3) \<Rightarrow> (Inr ''copied'', s3))))"

subsection \<open>Deploying\<close>

text \<open>
  The body of the loop of \<^verbatim>\<open>symlink_to_game\<close> for one entry of \<^verbatim>\<open>output/\<close>, and the
  loop over what \<^verbatim>\<open>iterdir\<close> lists. The \<^verbatim>\<open>print\<close> calls are left out.
\<close>

definition deploy_item :: "env \<Rightarrow> name \<Rightarrow> unit io" where
  "deploy_item e nm =
     (let item = output_dir e @ [nm]; dest = game_dir e @ [nm] in
      and_then (remove_existing_path (os_name e) dest) (\<lambda>u s.
        if is_dir s item then
          (case try_create_dir_link e item dest s of
             (Inl err, s') \<Rightarrow> (Inl err, s')
           | (Inr method, s') \<Rightarrow> (Inr (), s'))
        else shutil_copy2 item dest s))"

definition symlink_to_game :: "env \<Rightarrow> unit io" where
  "symlink_to_game e = (\<lambda>s.
     case scandir s (output_dir e) of
       Inl err \<Rightarrow> (Inl err, s)
     | Inr names \<Rightarrow> for_each names (deploy_item e) s)"

subsection \<open>Building\<close>

definition clear_output :: "env \<Rightarrow> unit io" where
  "clear_output e =
     and_then (\<lambda>s. if path_exists s (output_dir e) then shutil_rmtree (output_dir e) s
                    else (Inr (), s))
       (\<lambda>u. mkdir_parents False (output_dir e))"

text \<open>
  \<^verbatim>\<open>os.walk(src)\<close> lists a directory when it reaches it, hands it to the loop body, and
  only then goes into its subdirectories, which it lists when it reaches them; a
  directory it cannot list is skipped, and a subdirectory that is a link is not entered.
  So the walk and the body of \<^verbatim>\<open>copy_tree\<close> are one recursion over the file system as it
  is at that moment; \<open>rel\<close> is the path of the directory below \<open>src\<close>. The recursion
  answers with the files it has handed to \<^verbatim>\<open>copy2\<close>, as paths below \<open>src\<close> and in the
  order of the visits; \<^verbatim>\<open>copy_tree\<close> itself returns nothing.
\<close>

primrec walk_copy :: "nat \<Rightarrow> path \<Rightarrow> path \<Rightarrow> path \<Rightarrow> path list io" where
  "walk_copy 0 src dst rel = raise RecursionError"
| "walk_copy (Suc k) src dst rel = (\<lambda>s.
     case scandir s (src @ rel) of
       Inl err \<Rightarrow> (Inr [], s)
     | Inr names \<Rightarrow>
         (let dirs = filter (\<lambda>n. is_dir s (src @ rel @ [n])) names;
              files = filter (\<lambda>n. \<not> is_dir s (src @ rel @ [n])) names;
              target_root = dst @ rel
          in and_then (mkdir_parents True target_root) (\<lambda>u.
             and_then (for_each files (\<lambda>file.
                 shutil_copy2 (src @ rel @ [file]) (target_root @ [file]))) (\<lambda>u.
             and_then (collect dirs (\<lambda>d s'.
                 if is_symlink s' (src @ rel @ [d]) then (Inr [], s')
                 else walk_copy k src dst (rel @ [d]) s')) (\<lambda>below.
             ok (map (\<lambda>file. rel @ [file]) files @ below)))) s))"

definition copy_tree :: "path \<Rightarrow> path \<Rightarrow> unit io" where
  "copy_tree src dst = and_then (walk_copy recursion_limit src dst []) (\<lambda>visited. ok ())"

text \<open>
  \<^verbatim>\<open>ZipFile.extractall\<close> takes the members in order. For each it makes the missing
  upper directories, then makes the directory or writes the file. The path of a member
  is the list of its components, as the zip reader has cleaned it.
\<close>

fun member_path :: "member \<Rightarrow> path" where
  "member_path (MFile p b) = p"
| "member_path (MDir p) = p"

definition extract_member :: "path \<Rightarrow> member \<Rightarrow> unit io" where
  "extract_member base m = (\<lambda>s.
     let targetpath = base @ member_path m; upperdirs = butlast targetpath in
     case (if \<not> path_exists s upperdirs then os_makedirs upperdirs s else (Inr (), s)) of
       (Inl err, s1) \<Rightarrow> (Inl err, s1)
     | (Inr u, s1) \<Rightarrow>
         (case m of
            MDir p \<Rightarrow> if is_dir s1 targetpath then (Inr (), s1) else os_mkdir targetpath s1
          | MFile p b \<Rightarrow> write_file targetpath b s1))"

definition extract_zip :: "env \<Rightarrow> path \<Rightarrow> path \<Rightarrow> unit io" where
  "extract_zip e zip_path temp_dir = (\<lambda>s.
     case stat s zip_path of
       None \<Rightarrow> (Inl FileNotFoundError, s)
     | Some (File b) \<Rightarrow>
         (case zip_members e b of
            None \<Rightarrow> (Inl BadZipFile, s)
          | Some ms \<Rightarrow> for_each ms (extract_member temp_dir) s)
     | Some Dir \<Rightarrow> (Inl IsADirectoryError, s)
     | Some _ \<Rightarrow> (Inl OSError, s))"

text \<open>
  \<^verbatim>\<open>Path.suffix\<close>: the name from its last dot on, when that dot is neither the first
  nor the last character.
\<close>

definition path_suffix :: "name \<Rightarrow> string" where
  "path_suffix nm =
     (let r = takeWhile (\<lambda>c. c \<noteq> CHR ''.'') (rev nm)
      in if Suc (length r) < length nm \<and> r \<noteq> [] then CHR ''.'' # rev r else [])"

text \<open>The body of the loop of \<^verbatim>\<open>build_mods\<close> for one entry of \<^verbatim>\<open>mods/\<close>, and the build.\<close>

definition build_mod :: "env \<Rightarrow> name \<Rightarrow> unit io" where
  "build_mod e nm = (\<lambda>s.
     let mod_path = mods_dir e @ [nm] in
     if is_dir s mod_path then copy_tree mod_path (output_dir e) s
     else if path_suffix nm = ''.zip'' then
       (let temp_dir = output_dir e @ [''__temp__''] in
        and_then (mkdir_plain True temp_dir) (\<lambda>u.
        and_then (extract_zip e mod_path temp_dir) (\<lambda>u.
        and_then (copy_tree temp_dir (output_dir e)) (\<lambda>u.
        shutil_rmtree temp_dir))) s)
     else (Inr (), s))"

definition build_mods :: "env \<Rightarrow> unit io" where
  "build_mods e =
     and_then (clear_output e) (\<lambda>u s.
       case scandir s (mods_dir e) of
         Inl err \<Rightarrow> (Inl err, s)
       | Inr names \<Rightarrow> for_each (sort names) (build_mod e) s)"

subsection \<open>Undeploying\<close>

text \<open>
  \<^verbatim>\<open>MANAGED_TOP_FOLDERS\<close> is a Python set, whose order of iteration is not fixed: the
  order the interpreter picks is the argument \<open>order\<close>.
\<close>

definition undeploy_from_game :: "env \<Rightarrow> name list \<Rightarrow> unit io" where
  "undeploy_from_game e order = (\<lambda>s.
     if \<not> path_exists s (output_dir e) then (Inr (), s)
     else for_each order (\<lambda>item s'.
            let dest = game_dir e @ [item] in
            if path_exists s' dest \<or> is_symlink s' dest
            then remove_existing_path (os_name e) dest s'
            else (Inr (), s')) s)"

section \<open>Well-formed file systems\<close>

text \<open>
  A path is a real directory when each of its components is a directory of the table:
  no link is followed on the way. \<^verbatim>\<open>Path.resolve()\<close> gives such a path, so
  \<^verbatim>\<open>builder_dir\<close> and \<^verbatim>\<open>game_dir\<close> are real directories.
\<close>

fun real_dir_from :: "fs \<Rightarrow> path \<Rightarrow> path \<Rightarrow> bool" where
  "real_dir_from s cur [] = True"
| "real_dir_from s cur (c # cs) = (map_of s (cur @ [c]) = Some Dir \<and> real_dir_from s (cur @ [c]) cs)"

definition real_dir :: "fs \<Rightarrow> path \<Rightarrow> bool" where
  "real_dir s d = real_dir_from s [] d"

text \<open>
  The table is a tree when every row sits in a directory of the table. Junctions exist
  on Windows only.
\<close>

definition wf_fs :: "fs \<Rightarrow> bool" where
  "wf_fs s = list_all (\<lambda>q. q \<noteq> [] \<and> node_at s (butlast q) = Some Dir) (map fst s)"

fun is_junction :: "node \<Rightarrow> bool" where
  "is_junction (Junction t) = True"
| "is_junction n = False"

fun is_link :: "node \<Rightarrow> bool" where
  "is_link (Symlink t) = True"
| "is_link (Junction t) = True"
| "is_link n = False"

definition junctions_ok :: "os_name \<Rightarrow> fs \<Rightarrow> bool" where
  "junctions_ok os_nm s = (os_nm = Nt \<or> list_all (\<lambda>(q, n). \<not> is_junction n) s)"

text \<open>
  The same two facts read off the table as a map, and what the proofs carry along:
  below \<open>d\<close> there is no link, and one file system differs from another only at or below
  \<open>d\<close>, by files and directories.
\<close>

definition tree :: "fs \<Rightarrow> bool" where
  "tree s = (\<forall>q. map_of s q \<noteq> None \<longrightarrow> q \<noteq> [] \<and> node_at s (butlast q) = Some Dir)"

definition no_junction :: "os_name \<Rightarrow> fs \<Rightarrow> bool" where
  "no_junction os_nm s = (os_nm = Nt \<or> (\<forall>q t. map_of s q \<noteq> Some (Junction t)))"

definition no_links_under :: "fs \<Rightarrow> path \<Rightarrow> bool" where
  "no_links_under s d = (\<forall>q n. prefix d q \<and> map_of s q = Some n \<longrightarrow> \<not> is_link n)"

definition grows_under :: "path \<Rightarrow> fs \<Rightarrow> fs \<Rightarrow> bool" where
  "grows_under d s s' =
     ((\<forall>q. \<not> prefix d q \<longrightarrow> map_of s' q = map_of s q) \<and>
      (\<forall>q n. map_of s' q = Some n \<longrightarrow> map_of s q = Some n \<or> \<not> is_link n))"

text \<open>One file system differs from another only at or below \<open>d\<close>.\<close>

definition frame_under :: "path \<Rightarrow> fs \<Rightarrow> fs \<Rightarrow> bool" where
  "frame_under d s s' = (\<forall>q. \<not> prefix d q \<longrightarrow> map_of s' q = map_of s q)"

text \<open>The top-level entries of the Output Tree, as \<^verbatim>\<open>symlink_to_game\<close> lists them.\<close>

definition output_entries :: "env \<Rightarrow> fs \<Rightarrow> name list" where
  "output_entries e s = (case scandir s (output_dir e) of Inl err \<Rightarrow> [] | Inr names \<Rightarrow> names)"







section \<open>Example file systems\<close>

text \<open>
  The game lives in \<^verbatim>\<open>/game\<close> and the script in \<^verbatim>\<open>/game/loader\<close>. On the first file
  system \<^verbatim>\<open>/game/audio\<close> is a symbolic link whose target is gone; on the second it is a
  link to a built folder; on the third a junction to it.
\<close>

definition posix_env :: env where
  "posix_env = \<lparr>builder_dir = [''game'', ''loader''], os_name = Posix,
     symlink_privilege = True, mklink_works = False, zip_members = (\<lambda>b. None)\<rparr>"

definition nt_env :: env where
  "nt_env = \<lparr>builder_dir = [''game'', ''loader''], os_name = Nt,
     symlink_privilege = False, mklink_works = True, zip_members = (\<lambda>b. None)\<rparr>"

definition fs_empty_game :: fs where
  "fs_empty_game = [([''game''], Dir)]"

definition fs_broken_link :: fs where
  "fs_broken_link = [([''game''], Dir), ([''game'', ''audio''], Symlink [''gone''])]"

definition fs_built :: fs where
  "fs_built =
     [([''game''], Dir),
      ([''game'', ''loader''], Dir),
      ([''game'', ''loader'', ''output''], Dir),
      ([''game'', ''loader'', ''output'', ''audio''], Dir),
      ([''game'', ''loader'', ''output'', ''audio'', ''a.ogg''], File ''abc'')]"

definition fs_linked :: fs where
  "fs_linked = fs_built @ [([''game'', ''audio''], Symlink [''game'', ''loader'', ''output'', ''audio''])]"

definition fs_junction :: fs where
  "fs_junction = fs_built @ [([''game'', ''audio''], Junction [''game'', ''loader'', ''output'', ''audio''])]"

definition fs_deployed_no_output :: fs where
  "fs_deployed_no_output =
     [([''game''], Dir), ([''game'', ''loader''], Dir),
      ([''game'', ''audio''], Dir), ([''game'', ''audio'', ''a.ogg''], File ''abc'')]"

definition fs_deployed :: fs where
  "fs_deployed =
     [([''game''], Dir),
      ([''game'', ''keep.txt''], File ''k''),
      ([''game'', ''saves''], Dir),
      ([''game'', ''saves'', ''slot1''], File ''s''),
      ([''game'', ''loader''], Dir),
      ([''game'', ''loader'', ''output''], Dir),
      ([''game'', ''loader'', ''output'', ''audio''], Dir),
      ([''game'', ''loader'', ''output'', ''audio'', ''a.ogg''], File ''abc''),
      ([''game'', ''audio''], Symlink [''game'', ''loader'', ''output'', ''audio'']),
      ([''game'', ''data''], Dir),
      ([''game'', ''data'', ''x.txt''], File ''2'')]"

definition managed_order :: "name list" where
  "managed_order = [''audio'', ''data'', ''levels'', ''shaders'', ''swfs'', ''textures'']"

text \<open>
  A build whose Output Tree has a top-level folder \<^verbatim>\<open>extras\<close>, which is no managed name,
  beside a game folder in which the player keeps a folder of that name.
\<close>

definition fs_unmanaged :: fs where
  "fs_unmanaged =
     [([''game''], Dir),
      ([''game'', ''keep.txt''], File ''k''),
      ([''game'', ''extras''], Dir),
      ([''game'', ''extras'', ''mine.txt''], File ''m''),
      ([''game'', ''loader''], Dir),
      ([''game'', ''loader'', ''output''], Dir),
      ([''game'', ''loader'', ''output'', ''extras''], Dir),
      ([''game'', ''loader'', ''output'', ''extras'', ''e.txt''], File ''e'')]"



text \<open>
  Three sets of mods. In the first the only overlay is an archive with the entry
  \<^verbatim>\<open>__temp__/x.txt\<close>. In the second a folder overlay with \<^verbatim>\<open>__temp__/x.txt\<close> comes before an
  archive with the entry \<^verbatim>\<open>y.txt\<close>. In the third the only overlay is an archive with the
  entries \<^verbatim>\<open>__temp__/a/f\<close> and \<^verbatim>\<open>a/f\<close>, stored in this order. The bytes of an archive
  stand for its members through \<open>zip_members\<close>.
\<close>

definition zip_env :: env where
  "zip_env = \<lparr>builder_dir = [''game'', ''loader''], os_name = Posix,
     symlink_privilege = True, mklink_works = False,
     zip_members = (\<lambda>b.
       if b = ''PK1'' then Some [MFile [''__temp__'', ''x.txt''] ''T'']
       else if b = ''PK2'' then Some [MFile [''y.txt''] ''Y'']
       else if b = ''PK3'' then Some [MFile [''__temp__'', ''a'', ''f''] ''B'', MFile [''a'', ''f''] ''A'']
       else None)\<rparr>"

definition fs_mods1 :: fs where
  "fs_mods1 =
     [([''game''], Dir), ([''game'', ''loader''], Dir), ([''game'', ''loader'', ''mods''], Dir),
      ([''game'', ''loader'', ''mods'', ''D.zip''], File ''PK1'')]"

definition fs_mods2 :: fs where
  "fs_mods2 =
     [([''game''], Dir), ([''game'', ''loader''], Dir), ([''game'', ''loader'', ''mods''], Dir),
      ([''game'', ''loader'', ''mods'', ''A''], Dir),
      ([''game'', ''loader'', ''mods'', ''A'', ''__temp__''], Dir),
      ([''game'', ''loader'', ''mods'', ''A'', ''__temp__'', ''x.txt''], File ''1''),
      ([''game'', ''loader'', ''mods'', ''C.zip''], File ''PK2'')]"

definition fs_mods3 :: fs where
  "fs_mods3 =
     [([''game''], Dir), ([''game'', ''loader''], Dir), ([''game'', ''loader'', ''mods''], Dir),
      ([''game'', ''loader'', ''mods'', ''E.zip''], File ''PK3'')]"

section \<open>Facts about the file system\<close>

lemma map_of_filter_keys:
  "map_of (filter (\<lambda>(q, n). P q) s) k = (if P k then map_of s k else None)"
  by (induction s) auto

lemma walk_path_snoc:
  "walk_path cr n s cur (xs @ [c]) = Some l \<Longrightarrow>
     \<exists>d. walk_path cr n s cur xs = Some d \<and> (d = cur \<or> node_at s d = Some Dir) \<and>
         (cr \<or> map_of s (d @ [c]) \<noteq> None)"
proof (induction cr n s cur xs rule: walk_path.induct)
  case (1 cr n s cur)
  have "cr \<or> map_of s (cur @ [c]) \<noteq> None"
  proof (rule ccontr)
    assume "\<not> (cr \<or> map_of s (cur @ [c]) \<noteq> None)"
    with "1.prems" show False by simp
  qed
  then show ?case by simp
next
  case (2 cr n s cur x xs)
  show ?case
  proof (cases "map_of s (cur @ [x])")
    case None
    with "2.prems" show ?thesis by simp
  next
    case (Some nd)
    show ?thesis
    proof (cases nd)
      case (File b)
      with Some "2.prems" show ?thesis by simp
    next
      case Dir
      from Some Dir "2.prems" have "walk_path cr n s (cur @ [x]) (xs @ [c]) = Some l" by simp
      from "2.IH"(1)[OF Some Dir this]
      obtain d where d: "walk_path cr n s (cur @ [x]) xs = Some d"
        "d = cur @ [x] \<or> node_at s d = Some Dir" "cr \<or> map_of s (d @ [c]) \<noteq> None" by blast
      from d(2) Some Dir have "node_at s d = Some Dir" by (auto simp: node_at_def)
      with d(1,3) Some Dir show ?thesis by simp
    next
      case (Symlink t)
      with Some "2.prems" obtain m where m: "n = Suc m" "walk_path cr m s [] ((t @ xs) @ [c]) = Some l"
        by (cases n) simp_all
      from "2.IH"(2)[OF Some Symlink m(1) m(2)]
      obtain d where d: "walk_path cr m s [] (t @ xs) = Some d" "d = [] \<or> node_at s d = Some Dir"
        "cr \<or> map_of s (d @ [c]) \<noteq> None" by blast
      from d(2) have "node_at s d = Some Dir" by (auto simp: node_at_def)
      with d(1,3) Some Symlink m(1) show ?thesis by simp
    next
      case (Junction t)
      with Some "2.prems" obtain m where m: "n = Suc m" "walk_path cr m s [] ((t @ xs) @ [c]) = Some l"
        by (cases n) simp_all
      from "2.IH"(3)[OF Some Junction m(1) m(2)]
      obtain d where d: "walk_path cr m s [] (t @ xs) = Some d" "d = [] \<or> node_at s d = Some Dir"
        "cr \<or> map_of s (d @ [c]) \<noteq> None" by blast
      from d(2) have "node_at s d = Some Dir" by (auto simp: node_at_def)
      with d(1,3) Some Junction m(1) show ?thesis by simp
    qed
  qed
qed

lemma stat_imp_lstat: "stat s p \<noteq> None \<Longrightarrow> lstat s p \<noteq> None"
proof (cases "p = []")
  case True
  then show ?thesis by (simp add: lstat_def entry_loc_def node_at_def)
next
  case False
  assume st: "stat s p \<noteq> None"
  from False have p: "p = butlast p @ [last p]" by simp
  from st obtain l where "realpath s p = Some l"
    by (auto simp: stat_def split: option.splits)
  then have "walk_path False max_links s [] (butlast p @ [last p]) = Some l"
    using p by (simp add: realpath_def)
  from walk_path_snoc[OF this] obtain d where
    d: "walk_path False max_links s [] (butlast p) = Some d" "d = [] \<or> node_at s d = Some Dir"
       "False \<or> map_of s (d @ [last p]) \<noteq> None" by blast
  from d(2) have dir: "node_at s d = Some Dir" by (auto simp: node_at_def)
  from d(1) dir False have "entry_loc s p = Some (d @ [last p])"
    by (simp add: entry_loc_def realpath_def)
  then show ?thesis using d(3) by (simp add: lstat_def node_at_def)
qed

lemma reparse_iff:
  "is_windows_reparse_point os_nm s p \<longleftrightarrow>
     os_nm = Nt \<and> (case lstat s p of Some (Symlink t) \<Rightarrow> True | Some (Junction t) \<Rightarrow> True | _ \<Rightarrow> False)"
proof (cases "lstat s p")
  case None
  then show ?thesis
    by (simp add: is_windows_reparse_point_def GetFileAttributesW_def)
next
  case (Some nd)
  then show ?thesis
    by (cases nd)
       (simp_all add: is_windows_reparse_point_def GetFileAttributesW_def
          INVALID_FILE_ATTRIBUTES_def FILE_ATTRIBUTE_REPARSE_POINT_def)
qed



section \<open>The safe remover\<close>

lemmas fs_eval = path_exists_def is_dir_def is_symlink_def stat_def lstat_def entry_loc_def
  realpath_def write_loc_def max_links_def node_at_def

lemma lstat_None_stat: "lstat s p = None \<Longrightarrow> stat s p = None"
  using stat_imp_lstat[of s p] by blast

lemma remove_absent:
  assumes "lstat s p = None"
  shows "remove_existing_path os_nm p s = (Inr (), s)"
proof -
  have "\<not> path_exists s p" using lstat_None_stat[OF assms] by (simp add: path_exists_def)
  moreover have "\<not> is_symlink s p" using assms by (simp add: is_symlink_def)
  moreover have "\<not> is_windows_reparse_point os_nm s p" using assms by (simp add: reparse_iff)
  ultimately show ?thesis by (simp add: remove_existing_path_def)
qed

lemma remove_symlink:
  assumes "lstat s p = Some (Symlink t)" and "entry_loc s p = Some l"
  shows "remove_existing_path os_nm p s = (Inr (), AList.delete l s)"
proof -
  have sym: "is_symlink s p" using assms by (simp add: is_symlink_def)
  have nd: "node_at s l = Some (Symlink t)" using assms by (simp add: lstat_def)
  have "os_unlink p s = (Inr (), AList.delete l s)"
    using assms(2) nd by (simp add: os_unlink_def)
  with sym show ?thesis by (simp add: remove_existing_path_def)
qed

lemma remove_junction:
  assumes "lstat s p = Some (Junction t)" and "entry_loc s p = Some l"
  shows "remove_existing_path Nt p s = (Inr (), AList.delete l s)"
proof -
  have sym: "\<not> is_symlink s p" using assms by (simp add: is_symlink_def)
  have rp: "is_windows_reparse_point Nt s p" using assms by (simp add: reparse_iff)
  have nd: "node_at s l = Some (Junction t)" using assms by (simp add: lstat_def)
  have u: "os_unlink p s = (Inr (), AList.delete l s)"
    using assms(2) nd by (simp add: os_unlink_def)
  have r: "os_rmdir p s = (Inr (), AList.delete l s)"
    using assms(2) nd by (simp add: os_rmdir_def)
  from sym rp u r show ?thesis by (simp add: remove_existing_path_def)
qed


lemma map_of_delete_other: "q \<noteq> l \<Longrightarrow> map_of (AList.delete l s) q = map_of s q"
  by (simp add: delete_conv')

lemma map_of_delete_same: "map_of (AList.delete l s) l = None"
  by (simp add: delete_conv')

lemma os_symlink_fail: "os_symlink e t d s = (Inl err, s1) \<Longrightarrow> s1 = s"
  by (auto simp: os_symlink_def split: if_splits option.splits)

section \<open>Real directories and what a removal may change\<close>

lemma real_dir_from_walk:
  "real_dir_from s cur d \<Longrightarrow> walk_path cr n s cur (d @ rest) = walk_path cr n s (cur @ d) rest"
  by (induction d arbitrary: cur) auto

lemma real_dir_realpath: "real_dir s d \<Longrightarrow> realpath s d = Some d"
  using real_dir_from_walk[of s "[]" d False max_links "[]"] by (simp add: real_dir_def realpath_def)

lemma real_dir_from_snoc:
  "real_dir_from s cur (d @ [c]) \<longleftrightarrow> real_dir_from s cur d \<and> map_of s (cur @ d @ [c]) = Some Dir"
  by (induction d arbitrary: cur) auto

lemma real_dir_node: "real_dir s d \<Longrightarrow> node_at s d = Some Dir"
proof (cases d rule: rev_cases)
  case Nil
  then show ?thesis by (simp add: node_at_def)
next
  case (snoc ys y)
  assume "real_dir s d"
  with snoc show ?thesis by (simp add: real_dir_def real_dir_from_snoc node_at_def)
qed

lemma real_dir_entry_loc: "real_dir s d \<Longrightarrow> entry_loc s (d @ [c]) = Some (d @ [c])"
  by (simp add: entry_loc_def real_dir_realpath real_dir_node)

lemma real_dir_from_cong:
  "(\<And>q. prefix q (cur @ d) \<Longrightarrow> map_of s' q = map_of s q) \<Longrightarrow>
     real_dir_from s' cur d = real_dir_from s cur d"
proof (induction d arbitrary: cur)
  case Nil
  then show ?case by simp
next
  case (Cons c cs)
  have a: "map_of s' (cur @ [c]) = map_of s (cur @ [c])"
    by (rule Cons.prems) simp
  have b: "real_dir_from s' (cur @ [c]) cs = real_dir_from s (cur @ [c]) cs"
    by (rule Cons.IH) (simp add: Cons.prems)
  from a b show ?case by simp
qed

lemma real_dir_frame:
  assumes "real_dir s d" and "\<And>q. \<not> prefix l q \<Longrightarrow> map_of s' q = map_of s q" and "\<not> prefix l d"
  shows "real_dir s' d"
proof -
  have "real_dir_from s' [] d = real_dir_from s [] d"
  proof (rule real_dir_from_cong)
    fix q assume "prefix q ([] @ d)"
    then have "\<not> prefix l q" using assms(3) by (metis append_Nil prefix_order.trans)
    then show "map_of s' q = map_of s q" by (rule assms(2))
  qed
  with assms(1) show ?thesis by (simp add: real_dir_def)
qed

lemma remove_existing_path_cases:
  "remove_existing_path os_nm p s = (r, s') \<Longrightarrow>
     s' = s \<or> (\<exists>l. entry_loc s p = Some l \<and> l \<noteq> [] \<and>
                 (s' = AList.delete l s \<or> s' = filter (\<lambda>(q, n). \<not> prefix l q) s))"
  unfolding remove_existing_path_def os_unlink_def os_rmdir_def shutil_rmtree_def
  by (auto split: if_splits option.splits node.splits simp: node_at_def)

lemma remove_existing_path_frame:
  assumes "remove_existing_path os_nm p s = (r, s')" and "entry_loc s p = Some l" and "\<not> prefix l q"
  shows "map_of s' q = map_of s q"
proof -
  from remove_existing_path_cases[OF assms(1)] assms(2)
  have "s' = s \<or> s' = AList.delete l s \<or> s' = filter (\<lambda>(q, n). \<not> prefix l q) s" by auto
  moreover have "q \<noteq> l" using assms(3) by auto
  ultimately show ?thesis using assms(3)
    by (auto simp: map_of_delete_other map_of_filter_keys)
qed


section \<open>The loop of the undeployer\<close>

lemma undeploy_loop_frame:
  assumes "real_dir s g"
    and "for_each order (\<lambda>item s'.
            let dest = g @ [item] in
            if path_exists s' dest \<or> is_symlink s' dest
            then remove_existing_path os_nm dest s'
            else (Inr (), s')) s = (r, s')"
  shows "(\<forall>q. (\<forall>n\<in>set order. \<not> prefix (g @ [n]) q) \<longrightarrow> map_of s' q = map_of s q) \<and> real_dir s' g"
  using assms
proof (induction order arbitrary: s)
  case Nil
  then show ?case by (simp add: ok_def)
next
  case (Cons n ns)
  let ?body = "\<lambda>item s'.
            let dest = g @ [item] in
            if path_exists s' dest \<or> is_symlink s' dest
            then remove_existing_path os_nm dest s'
            else (Inr (), s')"
  obtain r1 s1 where step: "?body n s = (r1, s1)" by (cases "?body n s") 
  have loc: "entry_loc s (g @ [n]) = Some (g @ [n])" using Cons.prems(1) by (rule real_dir_entry_loc)
  have fr: "\<And>q. \<not> prefix (g @ [n]) q \<Longrightarrow> map_of s1 q = map_of s q"
  proof -
    fix q assume np: "\<not> prefix (g @ [n]) q"
    show "map_of s1 q = map_of s q"
    proof (cases "path_exists s (g @ [n]) \<or> is_symlink s (g @ [n])")
      case True
      with step have "remove_existing_path os_nm (g @ [n]) s = (r1, s1)" by (simp add: Let_def)
      from remove_existing_path_frame[OF this loc np] show ?thesis .
    next
      case False
      with step show ?thesis by (simp add: Let_def)
    qed
  qed
  have rd1: "real_dir s1 g"
    by (rule real_dir_frame[OF Cons.prems(1), where l="g @ [n]"]) (simp_all add: fr)
  show ?case
  proof (cases r1)
    case (Inl err)
    with Cons.prems(2) step have "s' = s1" by (simp add: and_then_def)
    with fr rd1 show ?thesis by simp
  next
    case (Inr u)
    with Cons.prems(2) step have "for_each ns ?body s1 = (r, s')" by (simp add: and_then_def)
    from Cons.IH[OF rd1 this] fr show ?thesis by simp
  qed
qed

lemma undeploy_eval:
  "undeploy_from_game posix_env managed_order fs_deployed =
     (Inr (), [([''game''], Dir),
      ([''game'', ''keep.txt''], File ''k''),
      ([''game'', ''saves''], Dir),
      ([''game'', ''saves'', ''slot1''], File ''s''),
      ([''game'', ''loader''], Dir),
      ([''game'', ''loader'', ''output''], Dir),
      ([''game'', ''loader'', ''output'', ''audio''], Dir),
      ([''game'', ''loader'', ''output'', ''audio'', ''a.ogg''], File ''abc'')])"
  by (simp add: undeploy_from_game_def managed_order_def fs_deployed_def posix_env_def
      output_dir_def game_dir_def fs_eval and_then_def ok_def remove_existing_path_def
      is_windows_reparse_point_def os_unlink_def shutil_rmtree_def AList.delete_eq)

section \<open>The table as a tree\<close>

lemma wf_fs_tree: "wf_fs s \<Longrightarrow> tree s"
  unfolding tree_def
proof (intro allI impI)
  fix q assume wf: "wf_fs s" and q: "map_of s q \<noteq> None"
  from q have "q \<in> set (map fst s)" by (simp add: map_of_eq_None_iff)
  with wf show "q \<noteq> [] \<and> node_at s (butlast q) = Some Dir"
    unfolding wf_fs_def list_all_iff by blast
qed

lemma treeD: "tree s \<Longrightarrow> map_of s q \<noteq> None \<Longrightarrow> q \<noteq> [] \<and> node_at s (butlast q) = Some Dir"
  unfolding tree_def by blast

lemma node_at_nonempty: "l \<noteq> [] \<Longrightarrow> node_at s l = map_of s l"
  by (simp add: node_at_def)

lemma node_at_update_other: "q \<noteq> l \<Longrightarrow> node_at (AList.update l n s) q = node_at s q"
  by (simp add: node_at_def update_conv')

lemma node_at_delete_other: "q \<noteq> l \<Longrightarrow> node_at (AList.delete l s) q = node_at s q"
  by (simp add: node_at_def delete_conv')

lemma node_at_filter_other:
  "\<not> prefix l q \<Longrightarrow> node_at (filter (\<lambda>(q, n). \<not> prefix l q) s) q = node_at s q"
  by (simp add: node_at_def map_of_filter_keys)

lemma junctions_ok_no_junction: "junctions_ok os_nm s \<Longrightarrow> no_junction os_nm s"
  unfolding junctions_ok_def no_junction_def list_all_iff
  by (auto dest!: map_of_SomeD)

lemma map_of_update_other: "q \<noteq> l \<Longrightarrow> map_of (AList.update l n s) q = map_of s q"
  by (simp add: update_conv')

lemma map_of_update_same: "map_of (AList.update l n s) l = Some n"
  by (simp add: update_conv')

lemma tree_below:
  assumes "tree s" and "map_of s l \<noteq> Some Dir" and "l \<noteq> []"
  shows "map_of s (l @ r @ [c]) = None"
proof (induction r arbitrary: c rule: rev_induct)
  case Nil
  show ?case
  proof (rule ccontr)
    assume "map_of s (l @ [] @ [c]) \<noteq> None"
    then have "map_of s (l @ [c]) \<noteq> None" by simp
    from treeD[OF assms(1) this] have "node_at s l = Some Dir" by simp
    with assms(2,3) show False by (simp add: node_at_nonempty)
  qed
next
  case (snoc x xs)
  show ?case
  proof (rule ccontr)
    assume "map_of s (l @ (xs @ [x]) @ [c]) \<noteq> None"
    from treeD[OF assms(1) this] have "node_at s (butlast (l @ (xs @ [x]) @ [c])) = Some Dir"
      by blast
    moreover have "butlast (l @ (xs @ [x]) @ [c]) = l @ xs @ [x]"
      by (simp add: butlast_append)
    ultimately show False using snoc[of x] by (simp add: node_at_nonempty)
  qed
qed

lemma tree_leaf:
  assumes "tree s" and "map_of s l \<noteq> Some Dir" and "l \<noteq> []" and "strict_prefix l q"
  shows "map_of s q = None"
proof -
  from assms(4) obtain r where "q = l @ r" "r \<noteq> []" by (auto simp: strict_prefix_def prefix_def)
  then obtain r' c where "q = l @ r' @ [c]" by (metis rev_exhaust)
  with tree_below[OF assms(1,2,3)] show ?thesis by simp
qed

lemma tree_delete:
  assumes "tree s" and "\<And>q. strict_prefix l q \<Longrightarrow> map_of s q = None"
  shows "tree (AList.delete l s)"
  unfolding tree_def
proof (intro allI impI)
  fix q assume q: "map_of (AList.delete l s) q \<noteq> None"
  then have ql: "q \<noteq> l" by (auto simp: delete_conv')
  with q have qs: "map_of s q \<noteq> None" by (simp add: map_of_delete_other)
  from treeD[OF assms(1) qs] have a: "q \<noteq> []" "node_at s (butlast q) = Some Dir" by auto
  have "butlast q \<noteq> l"
  proof
    assume "butlast q = l"
    with a(1) have "strict_prefix l q"
      by (metis append_butlast_last_id prefixI strict_prefix_def ql)
    from assms(2)[OF this] qs show False by simp
  qed
  with a show "q \<noteq> [] \<and> node_at (AList.delete l s) (butlast q) = Some Dir"
    by (simp add: node_at_delete_other)
qed

lemma tree_filter:
  assumes "tree s"
  shows "tree (filter (\<lambda>(q, n). \<not> prefix l q) s)"
  unfolding tree_def
proof (intro allI impI)
  fix q assume q: "map_of (filter (\<lambda>(q, n). \<not> prefix l q) s) q \<noteq> None"
  then have np: "\<not> prefix l q" and qs: "map_of s q \<noteq> None"
    by (auto simp: map_of_filter_keys split: if_splits)
  from treeD[OF assms qs] have a: "q \<noteq> []" "node_at s (butlast q) = Some Dir" by auto
  have "\<not> prefix l (butlast q)"
    using np by (metis prefix_order.trans prefixeq_butlast)
  with a show "q \<noteq> [] \<and> node_at (filter (\<lambda>(q, n). \<not> prefix l q) s) (butlast q) = Some Dir"
    by (simp add: node_at_filter_other)
qed

lemma tree_update:
  assumes "tree s" and "l \<noteq> []" and "node_at s (butlast l) = Some Dir"
    and "n = Dir \<or> map_of s l \<noteq> Some Dir"
  shows "tree (AList.update l n s)"
  unfolding tree_def
proof (intro allI impI)
  fix q assume q: "map_of (AList.update l n s) q \<noteq> None"
  have bl: "butlast l \<noteq> l" using assms(2) by (metis append_butlast_last_id append_self_conv not_Cons_self2)
  show "q \<noteq> [] \<and> node_at (AList.update l n s) (butlast q) = Some Dir"
  proof (cases "q = l")
    case True
    with assms(2,3) bl show ?thesis by (simp add: node_at_update_other)
  next
    case False
    with q have qs: "map_of s q \<noteq> None" by (simp add: map_of_update_other)
    from treeD[OF assms(1) qs] have a: "q \<noteq> []" "node_at s (butlast q) = Some Dir" by auto
    show ?thesis
    proof (cases "butlast q = l")
      case bq: True
      have "n = Dir"
      proof (rule ccontr)
        assume "n \<noteq> Dir"
        with assms(4) have nd: "map_of s l \<noteq> Some Dir" by simp
        from bq a(1) False have "strict_prefix l q"
          by (metis append_butlast_last_id prefixI strict_prefix_def)
        from tree_leaf[OF assms(1) nd assms(2) this] qs show False by simp
      qed
      with bq a(1) assms(2) show ?thesis by (simp add: node_at_nonempty map_of_update_same)
    next
      case False
      with a show ?thesis by (simp add: node_at_update_other)
    qed
  qed
qed


section \<open>Writing below a real directory\<close>

lemma no_links_underD:
  "no_links_under s d \<Longrightarrow> prefix d q \<Longrightarrow> map_of s q \<noteq> Some (Symlink t) \<and> map_of s q \<noteq> Some (Junction t)"
  unfolding no_links_under_def by force

lemma walk_stays:
  assumes "no_links_under s d"
  shows "prefix d cur \<Longrightarrow> node_at s cur = Some Dir \<Longrightarrow> walk_path cr n s cur r = Some l \<Longrightarrow>
     prefix cur l \<and> (l = cur \<or> (l \<noteq> [] \<and> node_at s (butlast l) = Some Dir \<and> strict_prefix cur l))"
proof (induction r arbitrary: cur)
  case Nil
  then show ?case by simp
next
  case (Cons c cs)
  have pc: "prefix d (cur @ [c])" using Cons.prems(1) by (simp add: prefix_order.trans)
  have sp: "strict_prefix cur (cur @ [c])" by (simp add: strict_prefix_def)
  show ?case
  proof (cases "map_of s (cur @ [c])")
    case None
    with Cons.prems(3) have "l = cur @ [c]" by (simp split: if_splits)
    with Cons.prems(2) sp show ?thesis by simp
  next
    case (Some nd)
    show ?thesis
    proof (cases nd)
      case (File b)
      with Some Cons.prems(3) have "l = cur @ [c]" by (simp split: if_splits)
      with Cons.prems(2) sp show ?thesis by simp
    next
      case Dir
      with Some Cons.prems(3) have w: "walk_path cr n s (cur @ [c]) cs = Some l" by simp
      have nd: "node_at s (cur @ [c]) = Some Dir" using Some Dir by (simp add: node_at_def)
      from Cons.IH[OF pc nd w]
      have ih: "prefix (cur @ [c]) l" "l = cur @ [c] \<or> (l \<noteq> [] \<and> node_at s (butlast l) = Some Dir \<and> strict_prefix (cur @ [c]) l)"
        by auto
      from ih(1) have p: "prefix cur l" by (metis append_prefixD)
      from ih(1) have sl: "strict_prefix cur l"
        by (metis sp prefix_order.dual_order.strict_trans1)
      from ih(2) have "l \<noteq> [] \<and> node_at s (butlast l) = Some Dir"
        using Cons.prems(2) by auto
      with p sl show ?thesis by simp
    next
      case (Symlink t)
      with Some no_links_underD[OF assms pc] show ?thesis by blast
    next
      case (Junction t)
      with Some no_links_underD[OF assms pc] show ?thesis by blast
    qed
  qed
qed

lemma walk_under_entry:
  assumes "no_links_under s (d @ [c])" and "real_dir s d" and "walk_path cr n s [] (d @ c # cs) = Some l"
  shows "prefix (d @ [c]) l \<and> l \<noteq> [] \<and> node_at s (butlast l) = Some Dir"
proof -
  have rd: "real_dir_from s [] d" using assms(2) by (simp add: real_dir_def)
  from assms(3) real_dir_from_walk[OF rd, of cr n "c # cs"]
  have w: "walk_path cr n s d (c # cs) = Some l" by simp
  have dd: "node_at s d = Some Dir" using assms(2) by (rule real_dir_node)
  show ?thesis
  proof (cases "map_of s (d @ [c])")
    case None
    with w have "l = d @ [c]" by (simp split: if_splits)
    with dd show ?thesis by simp
  next
    case (Some nd)
    show ?thesis
    proof (cases nd)
      case (File b)
      with Some w have "l = d @ [c]" by (simp split: if_splits)
      with dd show ?thesis by simp
    next
      case Dir
      with Some w have w': "walk_path cr n s (d @ [c]) cs = Some l" by simp
      have nd: "node_at s (d @ [c]) = Some Dir" using Some Dir by (simp add: node_at_def)
      from walk_stays[OF assms(1) _ nd w'] dd show ?thesis by auto
    next
      case (Symlink t)
      with Some no_links_underD[OF assms(1), of "d @ [c]"] show ?thesis by auto
    next
      case (Junction t)
      with Some no_links_underD[OF assms(1), of "d @ [c]"] show ?thesis by auto
    qed
  qed
qed

lemma grows_under_refl: "grows_under d s s"
  by (simp add: grows_under_def)

lemma grows_under_trans:
  "grows_under d s s1 \<Longrightarrow> grows_under d s1 s2 \<Longrightarrow> grows_under d s s2"
  unfolding grows_under_def by metis

lemma grows_under_weaken:
  "prefix d d' \<Longrightarrow> grows_under d' s s' \<Longrightarrow> grows_under d s s'"
  unfolding grows_under_def by (metis prefix_order.trans)

lemma grows_under_update:
  "prefix d l \<Longrightarrow> \<not> is_link n \<Longrightarrow> grows_under d s (AList.update l n s)"
  unfolding grows_under_def by (auto simp: update_conv')

lemma grows_under_no_links:
  "grows_under x s s' \<Longrightarrow> no_links_under s d \<Longrightarrow> no_links_under s' d"
  unfolding grows_under_def no_links_under_def by blast

lemma grows_under_no_junction:
  "grows_under x s s' \<Longrightarrow> no_junction os_nm s \<Longrightarrow> no_junction os_nm s'"
  unfolding grows_under_def no_junction_def by (metis is_link.simps(2))

lemma grows_under_frame:
  "grows_under d s s' \<Longrightarrow> \<not> prefix d q \<Longrightarrow> map_of s' q = map_of s q"
  unfolding grows_under_def by blast

lemma grows_under_real_dir:
  "grows_under d s s' \<Longrightarrow> real_dir s g \<Longrightarrow> \<not> prefix d g \<Longrightarrow> real_dir s' g"
  using real_dir_frame[of s g d s'] grows_under_frame by blast

lemma write_file_under:
  assumes "tree s" and "real_dir s d" and "no_links_under s (d @ [c])"
    and "write_file (d @ c # cs) b s = (res, s')"
  shows "grows_under (d @ [c]) s s' \<and> tree s'"
proof (cases "write_loc s (d @ c # cs)")
  case None
  with assms(4) have "s' = s" by (simp add: write_file_def)
  with assms(1) show ?thesis by (simp add: grows_under_refl)
next
  case (Some l)
  then have "walk_path True max_links s [] (d @ c # cs) = Some l" by (simp add: write_loc_def)
  from walk_under_entry[OF assms(3,2) this]
  have l: "prefix (d @ [c]) l" "l \<noteq> []" "node_at s (butlast l) = Some Dir" by auto
  show ?thesis
  proof (cases "node_at s l = Some Dir")
    case True
    with Some assms(4) have "s' = s" by (simp add: write_file_def)
    with assms(1) show ?thesis by (simp add: grows_under_refl)
  next
    case False
    with Some assms(4) have s': "s' = AList.update l (File b) s" by (simp add: write_file_def)
    from False l(2) have "map_of s l \<noteq> Some Dir" by (simp add: node_at_nonempty)
    then have "tree s'" unfolding s' using tree_update[OF assms(1) l(2) l(3)] by blast
    moreover have "grows_under (d @ [c]) s s'" unfolding s'
      by (rule grows_under_update[OF l(1)]) simp
    ultimately show ?thesis by simp
  qed
qed

lemma shutil_copy2_under:
  assumes "tree s" and "real_dir s d" and "no_links_under s (d @ [c])"
    and "shutil_copy2 a (d @ [c]) s = (res, s')"
  shows "grows_under (d @ [c]) s s' \<and> tree s'"
proof -
  define dst' where "dst' = (if is_dir s (d @ [c]) \<and> a \<noteq> [] then (d @ [c]) @ [last a] else d @ [c])"
  then obtain cs where cs: "dst' = d @ c # cs" by (cases "is_dir s (d @ [c]) \<and> a \<noteq> []") auto
  from assms(4) have "s' = s \<or> (\<exists>b. write_file dst' b s = (res, s'))"
    unfolding shutil_copy2_def dst'_def Let_def
    by (auto split: if_splits option.splits node.splits)
  then show ?thesis
  proof
    assume "s' = s"
    with assms(1) show ?thesis by (simp add: grows_under_refl)
  next
    assume "\<exists>b. write_file dst' b s = (res, s')"
    then obtain b where "write_file (d @ c # cs) b s = (res, s')" using cs by auto
    from write_file_under[OF assms(1,2,3) this] show ?thesis .
  qed
qed

lemma os_mkdir_under:
  assumes "tree s" and "real_dir s d" and "os_mkdir (d @ [c]) s = (res, s')"
  shows "grows_under (d @ [c]) s s' \<and> tree s' \<and> (res = Inr () \<longrightarrow> real_dir s' (d @ [c]))"
proof -
  have rp: "realpath s d = Some d" and nd: "node_at s d = Some Dir"
    using assms(2) by (simp_all add: real_dir_realpath real_dir_node)
  show ?thesis
  proof (cases "node_at s (d @ [c]) \<noteq> None")
    case True
    with assms(3) rp nd have "s' = s" "res \<noteq> Inr ()" by (auto simp: os_mkdir_def)
    with assms(1) show ?thesis by (simp add: grows_under_refl)
  next
    case False
    with assms(3) rp nd have s': "s' = AList.update (d @ [c]) Dir s" and "res = Inr ()"
      by (auto simp: os_mkdir_def)
    have t: "tree s'" unfolding s' by (rule tree_update[OF assms(1)]) (simp_all add: nd)
    have g: "grows_under (d @ [c]) s s'" unfolding s' by (rule grows_under_update) simp_all
    have "real_dir s' d" by (rule grows_under_real_dir[OF g assms(2)]) simp
    then have "real_dir s' (d @ [c])"
      unfolding real_dir_def s' by (simp add: real_dir_from_snoc map_of_update_same)
    with t g show ?thesis by simp
  qed
qed

lemma os_makedirs_under:
  assumes "tree s" and "real_dir s d" and "os_makedirs (d @ [c]) s = (res, s')"
  shows "grows_under (d @ [c]) s s' \<and> tree s' \<and> (res = Inr () \<longrightarrow> real_dir s' (d @ [c]))"
proof -
  have "path_exists s d"
    using assms(2) by (simp add: path_exists_def stat_def real_dir_realpath real_dir_node)
  with assms(3) have "os_mkdir (d @ [c]) s = (res, s')"
    by (subst (asm) os_makedirs.simps) simp
  from os_mkdir_under[OF assms(1,2) this] show ?thesis .
qed


section \<open>What \<^verbatim>\<open>copytree\<close> may change\<close>

lemma no_links_under_mono: "prefix d d' \<Longrightarrow> no_links_under s d \<Longrightarrow> no_links_under s d'"
  unfolding no_links_under_def by (meson prefix_order.trans)

lemma fold_children_under:
  assumes step: "\<And>n s r s''. tree s \<Longrightarrow> real_dir s D \<Longrightarrow> no_links_under s D \<Longrightarrow> f n s = (r, s'') \<Longrightarrow>
                   grows_under (D @ [n]) s s'' \<and> tree s''"
  shows "tree s \<Longrightarrow> real_dir s D \<Longrightarrow> no_links_under s D \<Longrightarrow>
         fold (\<lambda>n (failed, s'). case f n s' of (Inl e, s'') \<Rightarrow> (True, s'') | (Inr u, s'') \<Rightarrow> (failed, s''))
           names (failed, s) = (failed', s') \<Longrightarrow>
         grows_under D s s' \<and> tree s' \<and> real_dir s' D \<and> no_links_under s' D"
proof (induction names arbitrary: failed s)
  case Nil
  then show ?case by (simp add: grows_under_refl)
next
  case (Cons n ns)
  obtain r s1 where f: "f n s = (r, s1)" by (cases "f n s")
  from step[OF Cons.prems(1,2,3) f] have g1: "grows_under (D @ [n]) s s1" and t1: "tree s1" by auto
  have g1': "grows_under D s s1" by (rule grows_under_weaken[OF _ g1]) simp
  have rd1: "real_dir s1 D" by (rule grows_under_real_dir[OF g1 Cons.prems(2)]) simp
  have nl1: "no_links_under s1 D" by (rule grows_under_no_links[OF g1 Cons.prems(3)])
  obtain failed1 where
    "fold (\<lambda>n (failed, s'). case f n s' of (Inl e, s'') \<Rightarrow> (True, s'') | (Inr u, s'') \<Rightarrow> (failed, s''))
           ns (failed1, s1) = (failed', s')"
    using Cons.prems(4) f by (cases r) auto
  from Cons.IH[OF t1 rd1 nl1 this] g1' show ?case
    by (auto intro: grows_under_trans)
qed

lemma copytree_under:
  "tree s \<Longrightarrow> real_dir s d \<Longrightarrow> no_links_under s (d @ [c]) \<Longrightarrow>
   copytree k src (d @ [c]) s = (res, s') \<Longrightarrow> grows_under (d @ [c]) s s' \<and> tree s'"
proof (induction k arbitrary: src d c s res s')
  case 0
  then show ?case by (simp add: raise_def grows_under_refl)
next
  case (Suc k)
  let ?D = "d @ [c]"
  show ?case
  proof (cases "scandir s src")
    case (Inl e)
    with Suc.prems(4) have "s' = s" by simp
    with Suc.prems(1) show ?thesis by (simp add: grows_under_refl)
  next
    case (Inr names)
    obtain r1 s1 where mk: "os_makedirs ?D s = (r1, s1)" by (cases "os_makedirs ?D s")
    from os_makedirs_under[OF Suc.prems(1,2) mk]
    have g1: "grows_under ?D s s1" and t1: "tree s1" and rd: "r1 = Inr () \<longrightarrow> real_dir s1 ?D" by auto
    show ?thesis
    proof (cases r1)
      case (Inl e)
      with Suc.prems(4) Inr mk have "s' = s1" by simp
      with g1 t1 show ?thesis by simp
    next
      case r1: (Inr u)
      let ?f = "\<lambda>n s'. if is_dir s' (src @ [n]) then copytree k (src @ [n]) (?D @ [n]) s'
                            else shutil_copy2 (src @ [n]) (?D @ [n]) s'"
      obtain failed' s2 where fo:
        "fold (\<lambda>n (failed, s'). case ?f n s' of (Inl e, s'') \<Rightarrow> (True, s'') | (Inr u, s'') \<Rightarrow> (failed, s''))
           names (False, s1) = (failed', s2)"
        by (cases "fold (\<lambda>n (failed, s'). case ?f n s' of (Inl e, s'') \<Rightarrow> (True, s'') | (Inr u, s'') \<Rightarrow> (failed, s''))
           names (False, s1)")
      with Suc.prems(4) Inr mk r1 have s': "s' = s2" by (simp split: if_splits)
      have rd1: "real_dir s1 ?D" using rd r1 by simp
      have nl1: "no_links_under s1 ?D" by (rule grows_under_no_links[OF g1 Suc.prems(3)])
      have step: "\<And>n s r s''. tree s \<Longrightarrow> real_dir s ?D \<Longrightarrow> no_links_under s ?D \<Longrightarrow> ?f n s = (r, s'') \<Longrightarrow>
                   grows_under (?D @ [n]) s s'' \<and> tree s''"
      proof -
        fix n s r s''
        assume a: "tree s" "real_dir s ?D" "no_links_under s ?D" "?f n s = (r, s'')"
        show "grows_under (?D @ [n]) s s'' \<and> tree s''"
        proof (cases "is_dir s (src @ [n])")
          case True
          with a(4) have ct: "copytree k (src @ [n]) (?D @ [n]) s = (r, s'')" by simp
          have nl: "no_links_under s (?D @ [n])" by (rule no_links_under_mono[OF _ a(3)]) simp
          from Suc.IH[OF a(1,2) nl ct] show ?thesis .
        next
          case False
          with a(4) have cp: "shutil_copy2 (src @ [n]) (?D @ [n]) s = (r, s'')" by simp
          have nl: "no_links_under s (?D @ [n])" by (rule no_links_under_mono[OF _ a(3)]) simp
          from shutil_copy2_under[OF a(1,2) nl cp] show ?thesis .
        qed
      qed
      from fold_children_under[of ?D ?f, OF step t1 rd1 nl1 fo]
      have "grows_under ?D s1 s2" "tree s2" by auto
      with g1 s' show ?thesis by (auto intro: grows_under_trans)
    qed
  qed
qed


section \<open>What the safe remover leaves\<close>

lemma children_empty:
  assumes "children s l = []"
  shows "map_of s (l @ [c]) = None"
proof (rule ccontr)
  assume "map_of s (l @ [c]) \<noteq> None"
  then have "l @ [c] \<in> set (map fst s)" by (simp add: map_of_eq_None_iff)
  then have "l @ [c] \<in> set (filter (\<lambda>q. q \<noteq> [] \<and> butlast q = l) (map fst s))" by simp
  then have "filter (\<lambda>q. q \<noteq> [] \<and> butlast q = l) (map fst s) \<noteq> []" by (metis empty_iff empty_set)
  with assms show False by (simp add: children_def)
qed

lemma tree_below_gen:
  assumes "tree s" and "\<And>c. map_of s (l @ [c]) = None"
  shows "map_of s (l @ r @ [c]) = None"
proof (induction r arbitrary: c rule: rev_induct)
  case Nil
  show ?case by (simp add: assms(2))
next
  case (snoc x xs)
  show ?case
  proof (rule ccontr)
    assume "map_of s (l @ (xs @ [x]) @ [c]) \<noteq> None"
    from treeD[OF assms(1) this] have "node_at s (butlast (l @ (xs @ [x]) @ [c])) = Some Dir"
      by blast
    moreover have "butlast (l @ (xs @ [x]) @ [c]) = l @ xs @ [x]"
      by (simp add: butlast_append)
    ultimately show False using snoc[of x] by (simp add: node_at_nonempty)
  qed
qed

lemma tree_no_children_leaf:
  assumes "tree s" and "children s l = []" and "strict_prefix l q"
  shows "map_of s q = None"
proof -
  from assms(3) obtain r where "q = l @ r" "r \<noteq> []" by (auto simp: strict_prefix_def prefix_def)
  then obtain r' c where "q = l @ r' @ [c]" by (metis rev_exhaust)
  with tree_below_gen[OF assms(1) children_empty[OF assms(2)]] show ?thesis by simp
qed

lemma remove_existing_path_result:
  assumes "remove_existing_path os_nm p s = (r, s')"
  shows "(r = Inr () \<and> s' = s \<and> \<not> path_exists s p \<and> \<not> is_symlink s p \<and> \<not> is_windows_reparse_point os_nm s p)
       \<or> ((\<exists>e. r = Inl e) \<and> s' = s)
       \<or> (\<exists>l. entry_loc s p = Some l \<and> l \<noteq> [] \<and> r = Inr () \<and>
            ((s' = AList.delete l s \<and> (map_of s l \<noteq> Some Dir \<or> children s l = []))
             \<or> s' = filter (\<lambda>(q, n). \<not> prefix l q) s))"
proof (cases "\<not> path_exists s p \<and> \<not> is_symlink s p \<and> \<not> is_windows_reparse_point os_nm s p")
  case True
  with assms show ?thesis by (simp add: remove_existing_path_def)
next
  case False
  have u: "\<And>r s'. os_unlink p s = (r, s') \<Longrightarrow> ((\<exists>e. r = Inl e) \<and> s' = s) \<or>
     (\<exists>l. entry_loc s p = Some l \<and> l \<noteq> [] \<and> r = Inr () \<and> s' = AList.delete l s \<and> map_of s l \<noteq> Some Dir)"
    unfolding os_unlink_def
    by (auto split: option.splits node.splits simp: node_at_def split: if_splits)
  have rd: "\<And>r s'. os_rmdir p s = (r, s') \<Longrightarrow> ((\<exists>e. r = Inl e) \<and> s' = s) \<or>
     (\<exists>l. entry_loc s p = Some l \<and> l \<noteq> [] \<and> r = Inr () \<and> s' = AList.delete l s \<and>
          (map_of s l \<noteq> Some Dir \<or> children s l = []))"
    unfolding os_rmdir_def
    by (auto split: option.splits node.splits simp: node_at_def split: if_splits)
  have rt: "\<And>r s'. shutil_rmtree p s = (r, s') \<Longrightarrow> ((\<exists>e. r = Inl e) \<and> s' = s) \<or>
     (\<exists>l. entry_loc s p = Some l \<and> l \<noteq> [] \<and> r = Inr () \<and> s' = filter (\<lambda>(q, n). \<not> prefix l q) s)"
    unfolding shutil_rmtree_def
    by (auto split: option.splits node.splits simp: node_at_def split: if_splits)
  from False assms have "os_unlink p s = (r, s') \<or> os_rmdir p s = (r, s') \<or> shutil_rmtree p s = (r, s')"
    by (auto simp: remove_existing_path_def split: if_splits)
  then show ?thesis using u[of r s'] rd[of r s'] rt[of r s'] by blast
qed

lemma remove_existing_path_tree:
  assumes "tree s" and "remove_existing_path os_nm p s = (r, s')"
  shows "tree s'"
proof -
  from remove_existing_path_result[OF assms(2)]
  consider "s' = s"
    | l where "l \<noteq> []" "s' = AList.delete l s" "map_of s l \<noteq> Some Dir \<or> children s l = []"
    | l where "s' = filter (\<lambda>(q, n). \<not> prefix l q) s"
    by blast
  then show ?thesis
  proof cases
    case 1
    with assms(1) show ?thesis by simp
  next
    case (2 l)
    have "\<And>q. strict_prefix l q \<Longrightarrow> map_of s q = None"
      using 2(1,3) tree_leaf[OF assms(1)] tree_no_children_leaf[OF assms(1)] by blast
    from tree_delete[OF assms(1) this] 2(2) show ?thesis by simp
  next
    case (3 l)
    with tree_filter[OF assms(1)] show ?thesis by simp
  qed
qed

lemma real_dir_stat_entry:
  assumes "real_dir s d" and "map_of s (d @ [c]) = Some n" and "\<not> is_link n"
  shows "stat s (d @ [c]) = Some n"
proof -
  have rd: "real_dir_from s [] d" using assms(1) by (simp add: real_dir_def)
  have "walk_path False max_links s [] (d @ [c]) = walk_path False max_links s d [c]"
    using real_dir_from_walk[OF rd, of False max_links "[c]"] by simp
  also have "\<dots> = Some (d @ [c])" using assms(2,3) by (cases n) simp_all
  finally show ?thesis using assms(2) by (simp add: stat_def realpath_def node_at_def)
qed

lemma remove_existing_path_free:
  assumes "tree s" and "no_junction os_nm s" and "real_dir s d"
    and "remove_existing_path os_nm (d @ [c]) s = (Inr (), s')"
  shows "map_of s' (d @ [c]) = None \<and> (\<forall>q. strict_prefix (d @ [c]) q \<longrightarrow> map_of s' q = None)"
proof -
  let ?p = "d @ [c]"
  have loc: "entry_loc s ?p = Some ?p" using assms(3) by (rule real_dir_entry_loc)
  have ls: "lstat s ?p = map_of s ?p" using loc by (simp add: lstat_def node_at_def)
  from remove_existing_path_result[OF assms(4)] loc
  consider "s' = s" "\<not> path_exists s ?p" "\<not> is_symlink s ?p" "\<not> is_windows_reparse_point os_nm s ?p"
    | "s' = AList.delete ?p s" "map_of s ?p \<noteq> Some Dir \<or> children s ?p = []"
    | "s' = filter (\<lambda>(q, n). \<not> prefix ?p q) s"
    by auto
  then show ?thesis
  proof cases
    case 1
    have "map_of s ?p = None"
    proof (rule ccontr)
      assume "map_of s ?p \<noteq> None"
      then obtain n where n: "map_of s ?p = Some n" by auto
      show False
      proof (cases "is_link n")
        case False
        from real_dir_stat_entry[OF assms(3) n False] 1(2) show False by (simp add: path_exists_def)
      next
        case True
        then show False
        proof (cases n)
          case (Symlink t)
          with n ls 1(3) show False by (simp add: is_symlink_def)
        next
          case (Junction t)
          with n assms(2) have "os_nm = Nt" by (auto simp: no_junction_def)
          with Junction n ls 1(4) show False by (simp add: reparse_iff)
        qed simp_all
      qed
    qed
    moreover from this have "\<And>q. strict_prefix ?p q \<Longrightarrow> map_of s q = None"
      using tree_leaf[OF assms(1), of ?p] by simp
    ultimately show ?thesis using 1(1) by simp
  next
    case 2
    have leaf: "\<And>q. strict_prefix ?p q \<Longrightarrow> map_of s q = None"
      using 2(2) tree_leaf[OF assms(1), of ?p] tree_no_children_leaf[OF assms(1), of ?p] by blast
    show ?thesis unfolding 2(1)
      using leaf by (auto simp: delete_conv' strict_prefix_def)
  next
    case 3
    show ?thesis unfolding 3 by (auto simp: map_of_filter_keys strict_prefix_def)
  qed
qed

lemma remove_existing_path_no_junction:
  assumes "no_junction os_nm s" and "remove_existing_path os_nm' p s = (r, s')"
  shows "no_junction os_nm s'"
proof -
  from remove_existing_path_cases[OF assms(2)]
  have "\<And>q n. map_of s' q = Some n \<Longrightarrow> map_of s q = Some n"
    by (auto simp: delete_conv' map_of_filter_keys split: if_splits)
  with assms(1) show ?thesis unfolding no_junction_def by (metis)
qed


section \<open>What the deployer may change\<close>

lemma os_symlink_result:
  assumes "real_dir s d" and "os_symlink e t (d @ [c]) s = (r, s')"
  shows "((\<exists>err. r = Inl err) \<and> s' = s) \<or>
         (r = Inr () \<and> s' = AList.update (d @ [c]) (Symlink t) s \<and> map_of s (d @ [c]) = None)"
  using assms(2) real_dir_entry_loc[OF assms(1), of c]
  by (auto simp: os_symlink_def node_at_def split: if_splits)

lemma mklink_J_result:
  assumes "real_dir s d" and "mklink_J e (d @ [c]) t s = (r, s')"
  shows "((\<exists>err. r = Inl err) \<and> s' = s) \<or>
         (r = Inr () \<and> s' = AList.update (d @ [c]) (Junction t) s \<and> map_of s (d @ [c]) = None)"
  using assms(2) real_dir_entry_loc[OF assms(1), of c]
  by (auto simp: mklink_J_def node_at_def split: if_splits)

lemma no_junction_update:
  "no_junction os_nm s \<Longrightarrow> os_nm = Nt \<or> \<not> is_junction n \<Longrightarrow> no_junction os_nm (AList.update l n s)"
  unfolding no_junction_def by (auto simp: update_conv')

lemma free_no_links:
  "map_of s p = None \<Longrightarrow> (\<forall>q. strict_prefix p q \<longrightarrow> map_of s q = None) \<Longrightarrow> no_links_under s p"
  unfolding no_links_under_def by (metis option.distinct(1) prefix_order.le_less)

lemma link_update_under:
  assumes "tree s" and "real_dir s d" and "map_of s (d @ [c]) = None"
    and "no_junction os_nm s" and "os_nm = Nt \<or> \<not> is_junction n"
  shows "frame_under (d @ [c]) s (AList.update (d @ [c]) n s) \<and> tree (AList.update (d @ [c]) n s) \<and>
         no_junction os_nm (AList.update (d @ [c]) n s)"
proof -
  have "tree (AList.update (d @ [c]) n s)"
    by (rule tree_update[OF assms(1)]) (simp_all add: real_dir_node[OF assms(2)] assms(3))
  moreover have "frame_under (d @ [c]) s (AList.update (d @ [c]) n s)"
    by (auto simp: frame_under_def update_conv')
  ultimately show ?thesis using no_junction_update[OF assms(4,5)] by simp
qed

lemma try_create_dir_link_under:
  assumes "tree s" and "real_dir s d" and "no_junction (os_name e) s"
    and "map_of s (d @ [c]) = None" and "\<forall>q. strict_prefix (d @ [c]) q \<longrightarrow> map_of s q = None"
    and "try_create_dir_link e src (d @ [c]) s = (r, s')"
  shows "frame_under (d @ [c]) s s' \<and> tree s' \<and> no_junction (os_name e) s'"
proof -
  let ?t = "resolve s src" and ?p = "d @ [c]"
  have same: "frame_under ?p s s \<and> tree s \<and> no_junction (os_name e) s"
    using assms(1,3) by (simp add: frame_under_def)
  obtain r1 s1 where sy: "os_symlink e ?t ?p s = (r1, s1)" by (cases "os_symlink e ?t ?p s")
  from os_symlink_result[OF assms(2) sy]
  show ?thesis
  proof
    assume ok: "r1 = Inr () \<and> s1 = AList.update ?p (Symlink ?t) s \<and> map_of s ?p = None"
    with assms(6) sy have "s' = AList.update ?p (Symlink ?t) s"
      by (simp add: try_create_dir_link_def Let_def)
    with link_update_under[OF assms(1,2,4,3), of "Symlink ?t"] show ?thesis by simp
  next
    assume fail: "(\<exists>err. r1 = Inl err) \<and> s1 = s"
    then obtain err where r1: "r1 = Inl err" and s1: "s1 = s" by auto
    show ?thesis
    proof (cases "os_name e = Nt")
      case False
      with assms(6) sy r1 s1 have "s' = s" by (simp add: try_create_dir_link_def Let_def)
      with same show ?thesis by simp
    next
      case True
      obtain r2 s2 where mk: "mklink_J e ?p ?t s = (r2, s2)" by (cases "mklink_J e ?p ?t s")
      from mklink_J_result[OF assms(2) mk]
      show ?thesis
      proof
        assume "r2 = Inr () \<and> s2 = AList.update ?p (Junction ?t) s \<and> map_of s ?p = None"
        with assms(6) sy r1 s1 True mk have "s' = AList.update ?p (Junction ?t) s"
          by (simp add: try_create_dir_link_def Let_def)
        with link_update_under[OF assms(1,2,4,3), of "Junction ?t"] True show ?thesis by simp
      next
        assume "(\<exists>err. r2 = Inl err) \<and> s2 = s"
        then obtain err2 where r2: "r2 = Inl err2" and s2: "s2 = s" by auto
        obtain r3 s3 where ct: "copytree recursion_limit ?t ?p s = (r3, s3)"
          by (cases "copytree recursion_limit ?t ?p s")
        with assms(6) sy r1 s1 True mk r2 s2 have s': "s' = s3"
          by (cases r3) (simp_all add: try_create_dir_link_def Let_def shutil_copytree_def)
        from copytree_under[OF assms(1,2) free_no_links[OF assms(4,5)] ct]
        have g: "grows_under ?p s s3" and t: "tree s3" by auto
        from g have "frame_under ?p s s3" by (simp add: frame_under_def grows_under_frame)
        with t grows_under_no_junction[OF g assms(3)] s' show ?thesis by simp
      qed
    qed
  qed
qed

lemma deploy_item_under:
  assumes "tree s" and "real_dir s (game_dir e)" and "no_junction (os_name e) s"
    and "deploy_item e nm s = (r, s')"
  shows "frame_under (game_dir e @ [nm]) s s' \<and> tree s' \<and> real_dir s' (game_dir e) \<and>
         no_junction (os_name e) s'"
proof -
  let ?g = "game_dir e" and ?dest = "game_dir e @ [nm]" and ?item = "output_dir e @ [nm]"
  have rdf: "\<And>x. frame_under ?dest s x \<Longrightarrow> real_dir x ?g"
    using real_dir_frame[OF assms(2), of ?dest] by (simp add: frame_under_def)
  obtain r1 s1 where rm: "remove_existing_path (os_name e) ?dest s = (r1, s1)"
    by (cases "remove_existing_path (os_name e) ?dest s")
  have loc: "entry_loc s ?dest = Some ?dest" using assms(2) by (rule real_dir_entry_loc)
  have f1: "frame_under ?dest s s1"
    unfolding frame_under_def using remove_existing_path_frame[OF rm loc] by blast
  have t1: "tree s1" by (rule remove_existing_path_tree[OF assms(1) rm])
  have j1: "no_junction (os_name e) s1" by (rule remove_existing_path_no_junction[OF assms(3) rm])
  have rd1: "real_dir s1 ?g" by (rule rdf[OF f1])
  show ?thesis
  proof (cases r1)
    case (Inl err)
    with assms(4) rm have "s' = s1" by (simp add: deploy_item_def and_then_def Let_def)
    with f1 t1 j1 rd1 show ?thesis by simp
  next
    case (Inr u)
    with rm have rm': "remove_existing_path (os_name e) ?dest s = (Inr (), s1)" by simp
    from remove_existing_path_free[OF assms(1,3,2) rm']
    have free: "map_of s1 ?dest = None" "\<forall>q. strict_prefix ?dest q \<longrightarrow> map_of s1 q = None" by auto
    have step: "frame_under ?dest s1 s' \<and> tree s' \<and> no_junction (os_name e) s'"
    proof (cases "is_dir s1 ?item")
      case True
      obtain r2 s2 where tc: "try_create_dir_link e ?item ?dest s1 = (r2, s2)"
        by (cases "try_create_dir_link e ?item ?dest s1")
      with assms(4) rm' True have "s' = s2"
        by (cases r2) (simp_all add: deploy_item_def and_then_def Let_def)
      with try_create_dir_link_under[OF t1 rd1 j1 free tc] show ?thesis by simp
    next
      case False
      with assms(4) rm' have cp: "shutil_copy2 ?item ?dest s1 = (r, s')"
        by (simp add: deploy_item_def and_then_def Let_def)
      from shutil_copy2_under[OF t1 rd1 free_no_links[OF free] cp]
      have g: "grows_under ?dest s1 s'" and t: "tree s'" by auto
      from g have "frame_under ?dest s1 s'" by (simp add: frame_under_def grows_under_frame)
      with t grows_under_no_junction[OF g j1] show ?thesis by simp
    qed
    then have "frame_under ?dest s s'" using f1 by (simp add: frame_under_def)
    with step rdf show ?thesis by simp
  qed
qed

lemma deploy_loop_under:
  assumes "tree s" and "real_dir s (game_dir e)" and "no_junction (os_name e) s"
    and "for_each names (deploy_item e) s = (r, s')"
  shows "(\<forall>q. (\<forall>n\<in>set names. \<not> prefix (game_dir e @ [n]) q) \<longrightarrow> map_of s' q = map_of s q) \<and>
         real_dir s' (game_dir e)"
  using assms
proof (induction names arbitrary: s)
  case Nil
  then show ?case by (simp add: ok_def)
next
  case (Cons n ns)
  obtain r1 s1 where st: "deploy_item e n s = (r1, s1)" by (cases "deploy_item e n s")
  from deploy_item_under[OF Cons.prems(1,2,3) st]
  have f: "frame_under (game_dir e @ [n]) s s1" and t: "tree s1" and rd: "real_dir s1 (game_dir e)"
    and j: "no_junction (os_name e) s1" by auto
  show ?case
  proof (cases r1)
    case (Inl err)
    with Cons.prems(4) st have "s' = s1" by (simp add: and_then_def)
    with f rd show ?thesis by (simp add: frame_under_def)
  next
    case (Inr u)
    with Cons.prems(4) st have "for_each ns (deploy_item e) s1 = (r, s')" by (simp add: and_then_def)
    from Cons.IH[OF t rd j this] f show ?thesis by (simp add: frame_under_def)
  qed
qed


lemmas deploy_eval = symlink_to_game_def deploy_item_def try_create_dir_link_def os_symlink_def
  resolve_def scandir_def children_def output_dir_def game_dir_def and_then_def ok_def Let_def
  remove_existing_path_def is_windows_reparse_point_def os_unlink_def shutil_rmtree_def

lemma deploy_unmanaged_eval:
  "symlink_to_game posix_env fs_unmanaged =
     (Inr (),
      [([''game''], Dir),
       ([''game'', ''keep.txt''], File ''k''),
       ([''game'', ''loader''], Dir),
       ([''game'', ''loader'', ''output''], Dir),
       ([''game'', ''loader'', ''output'', ''extras''], Dir),
       ([''game'', ''loader'', ''output'', ''extras'', ''e.txt''], File ''e''),
       ([''game'', ''extras''], Symlink [''game'', ''loader'', ''output'', ''extras''])])"
  by (simp add: fs_unmanaged_def posix_env_def deploy_eval fs_eval)

section \<open>The tree merger loses no row\<close>



















section \<open>The walk of the tree merger\<close>

















lemma child_prefix_unique: "prefix (D @ [n]) x \<Longrightarrow> prefix (D @ [m]) x \<Longrightarrow> n = m"
  by (auto simp: prefix_def append_eq_append_conv2 Cons_eq_append_conv)





lemma real_dir_from_append:
  "real_dir_from s cur (a @ b) \<longleftrightarrow> real_dir_from s cur a \<and> real_dir_from s (cur @ a) b"
  by (induction a arbitrary: cur) auto

lemma real_dir_append: "real_dir s (a @ b) \<longleftrightarrow> real_dir s a \<and> real_dir_from s a b"
  by (simp add: real_dir_def real_dir_from_append)



















lemmas walk_eval = scandir_def children_def and_then_def ok_def raise_def Let_def
  shutil_copy2_def write_file_def os_mkdir_def mkdir_plain_def recursion_limit_def


section \<open>What \<^verbatim>\<open>copytree\<close> copies\<close>

lemma fold_failed_stays:
  "fold (\<lambda>n (failed, s'). case f n s' of (Inl e, s'') \<Rightarrow> (True, s'') | (Inr u, s'') \<Rightarrow> (failed, s''))
     ns (True, s) = (fl, s') \<Longrightarrow> fl"
proof (induction ns arbitrary: s)
  case Nil
  then show ?case by simp
next
  case (Cons n ns)
  obtain r s1 where f: "f n s = (r, s1)" by (cases "f n s")
  with Cons.prems have "fold (\<lambda>n (failed, s'). case f n s' of (Inl e, s'') \<Rightarrow> (True, s'') | (Inr u, s'') \<Rightarrow> (failed, s''))
     ns (True, s1) = (fl, s')" by (cases r) simp_all
  then show ?case by (rule Cons.IH)
qed

lemma fold_distinct:
  assumes step: "\<And>n x u x'. n \<in> set ns \<Longrightarrow> J x \<Longrightarrow> f n x = (Inr u, x') \<Longrightarrow>
                   J x' \<and> frame_under (D @ [n]) x x'"
  shows "distinct ns \<Longrightarrow> J s \<Longrightarrow>
     fold (\<lambda>n (failed, s'). case f n s' of (Inl e, s'') \<Rightarrow> (True, s'') | (Inr u, s'') \<Rightarrow> (failed, s''))
       ns (False, s) = (False, s') \<Longrightarrow>
     J s' \<and> (\<forall>x. (\<forall>n\<in>set ns. \<not> prefix (D @ [n]) x) \<longrightarrow> map_of s' x = map_of s x) \<and>
     (\<forall>n\<in>set ns. \<exists>sa sb. J sa \<and> f n sa = (Inr (), sb) \<and>
         (\<forall>x. prefix (D @ [n]) x \<longrightarrow> map_of sa x = map_of s x \<and> map_of s' x = map_of sb x))"
  using step
proof (induction ns arbitrary: s)
  case Nil
  then show ?case by simp
next
  case (Cons n ns)
  let ?g = "\<lambda>n (failed, s'). case f n s' of (Inl e, s'') \<Rightarrow> (True, s'') | (Inr u, s'') \<Rightarrow> (failed, s'')"
  obtain r s1 where f: "f n s = (r, s1)" by (cases "f n s")
  have "\<exists>u. r = Inr u"
  proof (cases r)
    case (Inl e)
    with Cons.prems(3) f have "fold ?g ns (True, s1) = (False, s')" by simp
    from fold_failed_stays[OF this] show ?thesis by simp
  qed simp
  then have b: "f n s = (Inr (), s1)" using f by auto
  with Cons.prems(3) have fe: "fold ?g ns (False, s1) = (False, s')" by simp
  from Cons.prems(4)[OF _ Cons.prems(2) b] have j1: "J s1" and f1: "frame_under (D @ [n]) s s1" by auto
  have st: "\<And>n x u x'. n \<in> set ns \<Longrightarrow> J x \<Longrightarrow> f n x = (Inr u, x') \<Longrightarrow>
                   J x' \<and> frame_under (D @ [n]) x x'"
    using Cons.prems(4) by (meson list.set_intros(2))
  from Cons.prems(1) have d: "distinct ns" and nn: "n \<notin> set ns" by auto
  have ih: "J s' \<and> (\<forall>x. (\<forall>n\<in>set ns. \<not> prefix (D @ [n]) x) \<longrightarrow> map_of s' x = map_of s1 x) \<and>
     (\<forall>n\<in>set ns. \<exists>sa sb. J sa \<and> f n sa = (Inr (), sb) \<and>
         (\<forall>x. prefix (D @ [n]) x \<longrightarrow> map_of sa x = map_of s1 x \<and> map_of s' x = map_of sb x))"
    by (rule Cons.IH[OF d j1 fe]) (use st in blast)
  then have j': "J s'" and out: "\<And>x. (\<forall>m\<in>set ns. \<not> prefix (D @ [m]) x) \<Longrightarrow> map_of s' x = map_of s1 x"
    and per: "\<And>m. m \<in> set ns \<Longrightarrow> \<exists>sa sb. J sa \<and> f m sa = (Inr (), sb) \<and>
         (\<forall>x. prefix (D @ [m]) x \<longrightarrow> map_of sa x = map_of s1 x \<and> map_of s' x = map_of sb x)"
    by blast+
  have g2: "\<forall>x. (\<forall>m\<in>set (n # ns). \<not> prefix (D @ [m]) x) \<longrightarrow> map_of s' x = map_of s x"
    using out f1 by (simp add: frame_under_def)
  have g3: "\<forall>m\<in>set (n # ns). \<exists>sa sb. J sa \<and> f m sa = (Inr (), sb) \<and>
         (\<forall>x. prefix (D @ [m]) x \<longrightarrow> map_of sa x = map_of s x \<and> map_of s' x = map_of sb x)"
  proof
    fix m assume m: "m \<in> set (n # ns)"
    show "\<exists>sa sb. J sa \<and> f m sa = (Inr (), sb) \<and>
         (\<forall>x. prefix (D @ [m]) x \<longrightarrow> map_of sa x = map_of s x \<and> map_of s' x = map_of sb x)"
    proof (cases "m = n")
      case True
      have "\<forall>x. prefix (D @ [m]) x \<longrightarrow> map_of s' x = map_of s1 x"
      proof (intro allI impI)
        fix x assume p: "prefix (D @ [m]) x"
        have "\<forall>k\<in>set ns. \<not> prefix (D @ [k]) x"
          using child_prefix_unique[OF p] nn True by blast
        then show "map_of s' x = map_of s1 x" by (rule out)
      qed
      with Cons.prems(2) b True show ?thesis by blast
    next
      case False
      with m have mn: "m \<in> set ns" by simp
      from per[OF mn] obtain sa sb where sab: "J sa" "f m sa = (Inr (), sb)"
        "\<forall>x. prefix (D @ [m]) x \<longrightarrow> map_of sa x = map_of s1 x \<and> map_of s' x = map_of sb x" by blast
      have "\<forall>x. prefix (D @ [m]) x \<longrightarrow> map_of s1 x = map_of s x"
      proof (intro allI impI)
        fix x assume p: "prefix (D @ [m]) x"
        have "\<not> prefix (D @ [n]) x" using child_prefix_unique[OF p] False by blast
        with f1 show "map_of s1 x = map_of s x" by (simp add: frame_under_def)
      qed
      with sab show ?thesis by (metis)
    qed
  qed
  from j' g2 g3 show ?case by blast
qed

lemma real_dir_prefix_row:
  assumes "real_dir s p" and "prefix q p" and "q \<noteq> []"
  shows "map_of s q = Some Dir"
proof -
  from assms(2) obtain r where p: "p = q @ r" by (auto simp: prefix_def)
  with assms(1) have "real_dir s q" by (simp add: real_dir_append)
  from real_dir_node[OF this] assms(3) show ?thesis by (simp add: node_at_def)
qed

lemma real_dir_from_cong3:
  "(\<And>q. prefix q (cur @ d) \<Longrightarrow> strict_prefix cur q \<Longrightarrow> map_of s' q = map_of s q) \<Longrightarrow>
     real_dir_from s' cur d = real_dir_from s cur d"
proof (induction d arbitrary: cur)
  case Nil
  then show ?case by simp
next
  case (Cons c cs)
  have a: "map_of s' (cur @ [c]) = map_of s (cur @ [c])"
    by (rule Cons.prems) (simp_all add: strict_prefix_def)
  have b: "real_dir_from s' (cur @ [c]) cs = real_dir_from s (cur @ [c]) cs"
  proof (rule Cons.IH)
    fix q assume q: "prefix q ((cur @ [c]) @ cs)" "strict_prefix (cur @ [c]) q"
    from q(2) have "strict_prefix cur q"
      by (metis append_prefixD prefix_order.le_less prefix_order.less_le_trans strict_prefix_def
                prefixI prefix_order.dual_order.strict_trans1 same_prefix_nil not_Cons_self2)
    with q(1) show "map_of s' q = map_of s q" using Cons.prems[of q] by simp
  qed
  from a b show ?case by simp
qed

lemma real_dir_persist:
  assumes "real_dir s0 p" and "\<And>y. map_of s0 y \<noteq> None \<Longrightarrow> map_of s y = map_of s0 y"
  shows "real_dir s p"
proof -
  have "real_dir_from s [] p = real_dir_from s0 [] p"
  proof (rule real_dir_from_cong3)
    fix q assume q: "prefix q ([] @ p)" "strict_prefix [] q"
    then have "q \<noteq> []" by auto
    with real_dir_prefix_row[OF assms(1)] q(1) have "map_of s0 q = Some Dir" by simp
    then show "map_of s q = map_of s0 q" using assms(2)[of q] by simp
  qed
  with assms(1) show ?thesis by (simp add: real_dir_def)
qed


section \<open>Three builds\<close>

lemmas build_eval = build_mods_def build_mod_def clear_output_def copy_tree_def extract_zip_def
  extract_member_def path_suffix_def mods_dir_def output_dir_def shutil_rmtree_def

lemma build1_eval:
  "build_mods zip_env fs_mods1 =
     (Inr (), fs_mods1 @ [([''game'', ''loader'', ''output''], Dir)])"
  by (simp add: zip_env_def fs_mods1_def build_eval walk_eval fs_eval eval_nat_numeral)

lemma build2_eval:
  "build_mods zip_env fs_mods2 =
     (Inr (), fs_mods2 @ [([''game'', ''loader'', ''output''], Dir),
                           ([''game'', ''loader'', ''output'', ''x.txt''], File ''1''),
                           ([''game'', ''loader'', ''output'', ''y.txt''], File ''Y'')])"
  by (simp add: zip_env_def fs_mods2_def build_eval walk_eval fs_eval eval_nat_numeral)

lemma build3_eval:
  "build_mods zip_env fs_mods3 =
     (Inr (), fs_mods3 @ [([''game'', ''loader'', ''output''], Dir),
                           ([''game'', ''loader'', ''output'', ''a''], Dir),
                           ([''game'', ''loader'', ''output'', ''a'', ''f''], File ''B'')])"
  by (simp add: zip_env_def fs_mods3_def build_eval walk_eval fs_eval eval_nat_numeral)
section \<open>The claims\<close>

subsection \<open>C1: what a deploy and an undeploy touch in the target\<close>

text \<open>
  C1 as stated says that a deploy creates, replaces and removes only entries of the
  target whose names are managed names. \<^verbatim>\<open>symlink_to_game\<close> loops over whatever
  \<^verbatim>\<open>output/\<close> holds and never looks at \<^verbatim>\<open>MANAGED_TOP_FOLDERS\<close>: on
  \<^const>\<open>fs_unmanaged\<close> the folder \<^verbatim>\<open>extras\<close> of the game, no managed name, is removed with
  the file in it and replaced by a link to the built folder.
\<close>

theorem deploy_unmanaged_counterexample:
  "''extras'' \<notin> MANAGED_TOP_FOLDERS \<and>
   map_of fs_unmanaged [''game'', ''extras'', ''mine.txt''] = Some (File ''m'') \<and>
   map_of (snd (symlink_to_game posix_env fs_unmanaged)) [''game'', ''extras'', ''mine.txt''] = None \<and>
   map_of (snd (symlink_to_game posix_env fs_unmanaged)) [''game'', ''extras'']
     = Some (Symlink [''game'', ''loader'', ''output'', ''extras''])"
  by (simp add: deploy_unmanaged_eval) (simp add: MANAGED_TOP_FOLDERS_def fs_unmanaged_def)

text \<open>
  C1, amended: on a well-formed file system whose \<^verbatim>\<open>game_dir\<close> is a real directory, a
  deploy (also one that raised) leaves every row that is not at or below
  \<^verbatim>\<open>game_dir/<name>\<close>, for a top-level entry \<^verbatim>\<open><name>\<close> of the Output Tree, as it was; an
  undeploy leaves every row that is not at or below \<^verbatim>\<open>game_dir/<name>\<close> for a managed
  name as it was; after both the target is still a directory.
\<close>

theorem deploy_undeploy_frame:
  assumes "wf_fs s" and "real_dir s (game_dir e)" and "junctions_ok (os_name e) s"
    and "set order = MANAGED_TOP_FOLDERS"
  shows "(\<forall>q. (\<forall>n\<in>set (output_entries e s). \<not> prefix (game_dir e @ [n]) q) \<longrightarrow>
            map_of (snd (symlink_to_game e s)) q = map_of s q) \<and>
         (\<forall>q. (\<forall>n\<in>MANAGED_TOP_FOLDERS. \<not> prefix (game_dir e @ [n]) q) \<longrightarrow>
            map_of (snd (undeploy_from_game e order s)) q = map_of s q) \<and>
         node_at (snd (symlink_to_game e s)) (game_dir e) = Some Dir \<and>
         node_at (snd (undeploy_from_game e order s)) (game_dir e) = Some Dir"
proof -
  have t: "tree s" using assms(1) by (rule wf_fs_tree)
  have j: "no_junction (os_name e) s" using assms(3) by (rule junctions_ok_no_junction)
  have dep: "(\<forall>q. (\<forall>n\<in>set (output_entries e s). \<not> prefix (game_dir e @ [n]) q) \<longrightarrow>
            map_of (snd (symlink_to_game e s)) q = map_of s q) \<and>
            real_dir (snd (symlink_to_game e s)) (game_dir e)"
  proof (cases "scandir s (output_dir e)")
    case (Inl err)
    then have "symlink_to_game e s = (Inl err, s)" by (simp add: symlink_to_game_def)
    with assms(2) show ?thesis by simp
  next
    case (Inr names)
    obtain r s' where lp: "for_each names (deploy_item e) s = (r, s')"
      by (cases "for_each names (deploy_item e) s")
    with Inr have "symlink_to_game e s = (r, s')" by (simp add: symlink_to_game_def)
    moreover have "output_entries e s = names" using Inr by (simp add: output_entries_def)
    ultimately show ?thesis using deploy_loop_under[OF t assms(2) j lp] by simp
  qed
  have und: "(\<forall>q. (\<forall>n\<in>MANAGED_TOP_FOLDERS. \<not> prefix (game_dir e @ [n]) q) \<longrightarrow>
            map_of (snd (undeploy_from_game e order s)) q = map_of s q) \<and>
            real_dir (snd (undeploy_from_game e order s)) (game_dir e)"
  proof (cases "path_exists s (output_dir e)")
    case False
    then have "undeploy_from_game e order s = (Inr (), s)" by (simp add: undeploy_from_game_def)
    with assms(2) show ?thesis by simp
  next
    case True
    obtain r s' where res: "undeploy_from_game e order s = (r, s')"
      by (cases "undeploy_from_game e order s")
    with True have "for_each order (\<lambda>item s'.
            let dest = game_dir e @ [item] in
            if path_exists s' dest \<or> is_symlink s' dest
            then remove_existing_path (os_name e) dest s'
            else (Inr (), s')) s = (r, s')" by (simp add: undeploy_from_game_def)
    from undeploy_loop_frame[OF assms(2) this] assms(4) res show ?thesis by simp
  qed
  from dep und show ?thesis by (simp add: real_dir_node)
qed

theorem deploy_undeploy_frame_witness:
  "wf_fs fs_unmanaged \<and> real_dir fs_unmanaged (game_dir posix_env) \<and>
   junctions_ok (os_name posix_env) fs_unmanaged \<and> set managed_order = MANAGED_TOP_FOLDERS \<and>
   output_entries posix_env fs_unmanaged = [''extras''] \<and>
   map_of (snd (symlink_to_game posix_env fs_unmanaged)) [''game'', ''keep.txt''] = Some (File ''k'') \<and>
   map_of (snd (undeploy_from_game posix_env managed_order fs_unmanaged)) [''game'', ''extras'', ''mine.txt'']
     = Some (File ''m'') \<and>
   node_at (snd (symlink_to_game posix_env fs_unmanaged)) (game_dir posix_env) = Some Dir"
proof -
  have a: "wf_fs fs_unmanaged" by (simp add: wf_fs_def fs_unmanaged_def node_at_def)
  have b: "real_dir fs_unmanaged (game_dir posix_env)"
    by (simp add: real_dir_def game_dir_def posix_env_def fs_unmanaged_def)
  have c: "junctions_ok (os_name posix_env) fs_unmanaged"
    by (simp add: junctions_ok_def fs_unmanaged_def)
  have d: "set managed_order = MANAGED_TOP_FOLDERS"
    by (auto simp: managed_order_def MANAGED_TOP_FOLDERS_def)
  have e: "output_entries posix_env fs_unmanaged = [''extras'']"
    by (simp add: output_entries_def scandir_def children_def output_dir_def posix_env_def
        fs_unmanaged_def fs_eval)
  have f: "\<forall>n\<in>set (output_entries posix_env fs_unmanaged).
             \<not> prefix (game_dir posix_env @ [n]) [''game'', ''keep.txt'']"
    unfolding e by (simp add: game_dir_def posix_env_def)
  have g: "\<forall>n\<in>MANAGED_TOP_FOLDERS. \<not> prefix (game_dir posix_env @ [n]) [''game'', ''extras'', ''mine.txt'']"
    by (simp add: MANAGED_TOP_FOLDERS_def game_dir_def posix_env_def)
  have h: "map_of fs_unmanaged [''game'', ''keep.txt''] = Some (File ''k'')"
    "map_of fs_unmanaged [''game'', ''extras'', ''mine.txt''] = Some (File ''m'')"
    by (simp_all add: fs_unmanaged_def)
  from deploy_undeploy_frame[OF a b c d] a b c d e f g h show ?thesis by simp
qed


subsection \<open>C2: the last overlay that holds a path decides its content\<close>

text \<open>
  C2 fails where an overlay has a path below a top-level folder \<^verbatim>\<open>__temp__\<close>, the name
  \<^verbatim>\<open>build_mods\<close> gives its scratch folder inside the Output Tree. On \<^const>\<open>fs_mods1\<close> the
  only overlay is an archive with the entry \<^verbatim>\<open>__temp__/x.txt\<close>: the build succeeds and the
  Output Tree has nothing at that path. On \<^const>\<open>fs_mods2\<close> the folder overlay \<^verbatim>\<open>A\<close> holds
  \<^verbatim>\<open>__temp__/x.txt\<close> and the later archive does not: after the build the path is gone
  from the Output Tree, and its bytes are at \<^verbatim>\<open>x.txt\<close>, a path that no overlay holds.
\<close>

theorem build_drops_scratch_named_paths:
  "fst (build_mods zip_env fs_mods1) = Inr () \<and>
   stat fs_mods1 (mods_dir zip_env @ [''D.zip'']) = Some (File ''PK1'') \<and>
   zip_members zip_env ''PK1'' = Some [MFile [''__temp__'', ''x.txt''] ''T''] \<and>
   map_of (snd (build_mods zip_env fs_mods1)) (output_dir zip_env @ [''__temp__'', ''x.txt'']) = None \<and>
   fst (build_mods zip_env fs_mods2) = Inr () \<and>
   map_of fs_mods2 (mods_dir zip_env @ [''A'', ''__temp__'', ''x.txt'']) = Some (File ''1'') \<and>
   map_of (snd (build_mods zip_env fs_mods2)) (output_dir zip_env @ [''__temp__'', ''x.txt'']) = None \<and>
   map_of (snd (build_mods zip_env fs_mods2)) (output_dir zip_env @ [''x.txt'']) = Some (File ''1'')"
  unfolding build1_eval build2_eval
  by (simp add: zip_env_def fs_mods1_def fs_mods2_def mods_dir_def output_dir_def fs_eval)

subsection \<open>C3: nothing at the path\<close>

text \<open>
  C3 as stated says that the Safe Remover is a silent no-op at every path at which
  nothing exists, paths holding broken links included. On \<^const>\<open>fs_broken_link\<close> nothing
  exists at \<^verbatim>\<open>/game/audio\<close> (what \<^verbatim>\<open>Path.exists()\<close> says of a link whose target is
  gone), yet the Safe Remover changes the file system: the guard of the source also asks
  \<^verbatim>\<open>is_symlink()\<close>, so that a broken link is unlinked.
\<close>

theorem safe_remover_broken_link_counterexample:
  "\<not> path_exists fs_broken_link [''game'', ''audio''] \<and>
   remove_existing_path Posix [''game'', ''audio''] fs_broken_link \<noteq> (Inr (), fs_broken_link)"
  by (simp add: fs_broken_link_def remove_existing_path_def os_unlink_def fs_eval)

text \<open>
  C3, amended: at every path that names no node at all (no file, no directory and no link,
  broken or not) the Safe Remover changes nothing and does not raise; a broken symbolic
  link is a node, and the Safe Remover unlinks it and nothing else.
\<close>

theorem safe_remover_absent:
  "(lstat s p = None \<longrightarrow> remove_existing_path os_nm p s = (Inr (), s)) \<and>
   (lstat s p = Some (Symlink t) \<and> \<not> path_exists s p \<and> entry_loc s p = Some l \<longrightarrow>
      remove_existing_path os_nm p s = (Inr (), AList.delete l s))"
  using remove_absent remove_symlink by blast

theorem safe_remover_absent_witness:
  "lstat fs_empty_game [''game'', ''audio''] = None \<and>
   remove_existing_path Posix [''game'', ''audio''] fs_empty_game = (Inr (), fs_empty_game) \<and>
   lstat fs_broken_link [''game'', ''audio''] = Some (Symlink [''gone'']) \<and>
   \<not> path_exists fs_broken_link [''game'', ''audio''] \<and>
   entry_loc fs_broken_link [''game'', ''audio''] = Some [''game'', ''audio''] \<and>
   remove_existing_path Posix [''game'', ''audio''] fs_broken_link = (Inr (), fs_empty_game)"
proof -
  have a: "lstat fs_empty_game [''game'', ''audio''] = None"
    by (simp add: fs_empty_game_def fs_eval)
  have b: "lstat fs_broken_link [''game'', ''audio''] = Some (Symlink [''gone''])"
    by (simp add: fs_broken_link_def fs_eval)
  have c: "\<not> path_exists fs_broken_link [''game'', ''audio'']"
    by (simp add: fs_broken_link_def fs_eval)
  have d: "entry_loc fs_broken_link [''game'', ''audio''] = Some [''game'', ''audio'']"
    by (simp add: fs_broken_link_def fs_eval)
  have e: "AList.delete [''game'', ''audio''] fs_broken_link = fs_empty_game"
    by (simp add: fs_broken_link_def fs_empty_game_def AList.delete_eq)
  from safe_remover_absent[where s=fs_empty_game and p="[''game'', ''audio'']" and os_nm=Posix]
       safe_remover_absent[where s=fs_broken_link and p="[''game'', ''audio'']" and t="[''gone'']"
         and l="[''game'', ''audio'']" and os_nm=Posix]
       a b c d e
  show ?thesis by simp
qed


subsection \<open>C4: removing a link leaves its target alone\<close>

text \<open>
  C4: applied to a symbolic link, or on Windows to a junction, the Safe Remover succeeds
  and deletes the row of the link and no other: every other node of the file system is
  what it was, in particular every node at or below the place the link points to.
\<close>

theorem safe_remover_link_only:
  assumes "lstat s p = Some (Symlink t) \<or> (os_nm = Nt \<and> lstat s p = Some (Junction t))"
    and "entry_loc s p = Some l"
  shows "remove_existing_path os_nm p s = (Inr (), AList.delete l s) \<and>
         map_of (AList.delete l s) l = None \<and>
         (\<forall>q. q \<noteq> l \<longrightarrow> map_of (AList.delete l s) q = map_of s q) \<and>
         (\<forall>t' q. realpath s t = Some t' \<and> t' @ q \<noteq> l \<longrightarrow>
            node_at (AList.delete l s) (t' @ q) = node_at s (t' @ q))"
proof -
  have "remove_existing_path os_nm p s = (Inr (), AList.delete l s)"
    using assms remove_symlink remove_junction by blast
  moreover have "\<forall>q. q \<noteq> l \<longrightarrow> map_of (AList.delete l s) q = map_of s q"
    by (simp add: map_of_delete_other)
  moreover have "\<forall>t' q. realpath s t = Some t' \<and> t' @ q \<noteq> l \<longrightarrow>
            node_at (AList.delete l s) (t' @ q) = node_at s (t' @ q)"
    by (simp add: node_at_def map_of_delete_other)
  ultimately show ?thesis by (simp add: map_of_delete_same)
qed

theorem safe_remover_link_only_witness:
  "remove_existing_path Posix [''game'', ''audio''] fs_linked = (Inr (), fs_built) \<and>
   remove_existing_path Nt [''game'', ''audio''] fs_junction = (Inr (), fs_built) \<and>
   node_at fs_built [''game'', ''loader'', ''output'', ''audio'', ''a.ogg''] = Some (File ''abc'') \<and>
   node_at fs_linked [''game'', ''loader'', ''output'', ''audio'', ''a.ogg''] = Some (File ''abc'')"
proof -
  let ?p = "[''game'', ''audio'']" and ?t = "[''game'', ''loader'', ''output'', ''audio'']"
  have a: "lstat fs_linked ?p = Some (Symlink ?t)"
    by (simp add: fs_linked_def fs_built_def fs_eval)
  have b: "entry_loc fs_linked ?p = Some ?p"
    by (simp add: fs_linked_def fs_built_def fs_eval)
  have c: "lstat fs_junction ?p = Some (Junction ?t)"
    by (simp add: fs_junction_def fs_built_def fs_eval)
  have d: "entry_loc fs_junction ?p = Some ?p"
    by (simp add: fs_junction_def fs_built_def fs_eval)
  have e: "AList.delete ?p fs_linked = fs_built" "AList.delete ?p fs_junction = fs_built"
    by (simp_all add: fs_linked_def fs_junction_def fs_built_def AList.delete_eq)
  have f: "realpath fs_linked ?t = Some ?t"
    by (simp add: fs_linked_def fs_built_def fs_eval)
  have g: "node_at fs_linked (?t @ [''a.ogg'']) = Some (File ''abc'')"
    by (simp add: fs_linked_def fs_built_def fs_eval)
  from safe_remover_link_only[where os_nm=Posix and s=fs_linked and p="?p" and t="?t" and l="?p"]
       safe_remover_link_only[where os_nm=Nt and s=fs_junction and p="?p" and t="?t" and l="?p"]
       a b c d e f g
  show ?thesis by auto
qed

subsection \<open>C5: no fallback where the symbolic link is the only mechanism\<close>

text \<open>
  C5: when \<^verbatim>\<open>os.name\<close> is not \<^verbatim>\<open>nt\<close> and \<^verbatim>\<open>os.symlink\<close> fails, the Directory Linker
  raises that very failure and leaves the file system as it was: no junction and no
  copy is made, also where \<^verbatim>\<open>mklink\<close> would have worked.
\<close>

theorem linker_propagates_on_posix:
  assumes "os_name e \<noteq> Nt"
    and "os_symlink e (resolve s src_dir) dest s = (Inl err, s1)"
  shows "try_create_dir_link e src_dir dest s = (Inl err, s)"
  using assms os_symlink_fail[OF assms(2)] by (simp add: try_create_dir_link_def)

theorem linker_propagates_on_posix_witness:
  "os_name (posix_env\<lparr>symlink_privilege := False, mklink_works := True\<rparr>) \<noteq> Nt \<and>
   os_symlink (posix_env\<lparr>symlink_privilege := False, mklink_works := True\<rparr>)
     (resolve fs_built [''game'', ''loader'', ''output'', ''audio'']) [''game'', ''audio''] fs_built
     = (Inl OSError, fs_built) \<and>
   try_create_dir_link (posix_env\<lparr>symlink_privilege := False, mklink_works := True\<rparr>)
     [''game'', ''loader'', ''output'', ''audio''] [''game'', ''audio''] fs_built = (Inl OSError, fs_built)"
proof -
  let ?e = "posix_env\<lparr>symlink_privilege := False, mklink_works := True\<rparr>"
  have a: "os_name ?e \<noteq> Nt" by (simp add: posix_env_def)
  have b: "os_symlink ?e (resolve fs_built [''game'', ''loader'', ''output'', ''audio'']) [''game'', ''audio''] fs_built
     = (Inl OSError, fs_built)" by (simp add: os_symlink_def posix_env_def)
  from linker_propagates_on_posix[OF a b] a b show ?thesis by simp
qed

subsection \<open>C10: no output tree, nothing undeployed\<close>

text \<open>
  C10: when the Output Tree does not exist the Undeployer returns at once and the file
  system is unchanged, also when a managed name is deployed in the target.
\<close>

theorem undeploy_without_output:
  assumes "\<not> path_exists s (output_dir e)"
  shows "undeploy_from_game e order s = (Inr (), s)"
  using assms by (simp add: undeploy_from_game_def)

theorem undeploy_without_output_witness:
  "\<not> path_exists fs_deployed_no_output (output_dir posix_env) \<and>
   path_exists fs_deployed_no_output (game_dir posix_env @ [''audio'']) \<and>
   undeploy_from_game posix_env [''audio'', ''data'', ''levels'', ''shaders'', ''swfs'', ''textures'']
     fs_deployed_no_output = (Inr (), fs_deployed_no_output)"
proof -
  have a: "\<not> path_exists fs_deployed_no_output (output_dir posix_env)"
    by (simp add: fs_deployed_no_output_def output_dir_def posix_env_def fs_eval)
  have b: "path_exists fs_deployed_no_output (game_dir posix_env @ [''audio''])"
    by (simp add: fs_deployed_no_output_def game_dir_def posix_env_def fs_eval)
  from undeploy_without_output[OF a] a b show ?thesis by simp
qed


subsection \<open>C7: an archive overlay goes through a scratch folder\<close>

text \<open>
  C7 fails for an archive with entries below \<^verbatim>\<open>__temp__\<close>. On \<^const>\<open>fs_mods3\<close> the archive
  holds \<^verbatim>\<open>__temp__/a/f\<close> with the bytes \<^verbatim>\<open>B\<close> and \<^verbatim>\<open>a/f\<close> with the bytes \<^verbatim>\<open>A\<close>. The
  walk of the scratch folder copies \<^verbatim>\<open>__temp__/a/f\<close> to \<^verbatim>\<open>output/__temp__/a/f\<close>, which is
  the scratch file \<^verbatim>\<open>a/f\<close> that it has not read yet: the build succeeds, and the Output
  Tree holds \<^verbatim>\<open>a/f\<close> with the bytes \<^verbatim>\<open>B\<close>.
\<close>

theorem zip_entry_bytes_replaced:
  "fst (build_mods zip_env fs_mods3) = Inr () \<and>
   stat fs_mods3 (mods_dir zip_env @ [''E.zip'']) = Some (File ''PK3'') \<and>
   zip_members zip_env ''PK3'' =
     Some [MFile [''__temp__'', ''a'', ''f''] ''B'', MFile [''a'', ''f''] ''A''] \<and>
   map_of (snd (build_mods zip_env fs_mods3)) (output_dir zip_env @ [''a'', ''f'']) = Some (File ''B'')"
  unfolding build3_eval
  by (simp add: zip_env_def fs_mods3_def mods_dir_def output_dir_def fs_eval)


subsection \<open>C8: the undeployer stays inside the managed names\<close>

text \<open>
  C8: whatever the target directory holds and in whatever order the managed names are
  taken, after the Undeployer (also after one that raised) every row of the file system
  that is not at or below \<^verbatim>\<open>game_dir/<name>\<close> for a managed name is what it was before,
  and the target directory itself is still a directory.
\<close>

theorem undeployer_frame:
  assumes "real_dir s (game_dir e)" and "set order = MANAGED_TOP_FOLDERS"
  shows "(\<forall>q. (\<forall>n\<in>MANAGED_TOP_FOLDERS. \<not> prefix (game_dir e @ [n]) q) \<longrightarrow>
            map_of (snd (undeploy_from_game e order s)) q = map_of s q) \<and>
         real_dir (snd (undeploy_from_game e order s)) (game_dir e) \<and>
         node_at (snd (undeploy_from_game e order s)) (game_dir e) = Some Dir"
proof (cases "path_exists s (output_dir e)")
  case False
  then have "undeploy_from_game e order s = (Inr (), s)" by (simp add: undeploy_from_game_def)
  with assms(1) show ?thesis by (simp add: real_dir_node)
next
  case True
  obtain r s' where res: "undeploy_from_game e order s = (r, s')" by (cases "undeploy_from_game e order s")
  with True have "for_each order (\<lambda>item s'.
            let dest = game_dir e @ [item] in
            if path_exists s' dest \<or> is_symlink s' dest
            then remove_existing_path (os_name e) dest s'
            else (Inr (), s')) s = (r, s')" by (simp add: undeploy_from_game_def)
  from undeploy_loop_frame[OF assms(1) this] assms(2) res show ?thesis
    by (simp add: real_dir_node)
qed

theorem undeployer_frame_witness:
  "real_dir fs_deployed (game_dir posix_env) \<and> set managed_order = MANAGED_TOP_FOLDERS \<and>
   map_of (snd (undeploy_from_game posix_env managed_order fs_deployed)) [''game'', ''saves'', ''slot1'']
     = Some (File ''s'') \<and>
   map_of (snd (undeploy_from_game posix_env managed_order fs_deployed)) [''game'', ''audio''] = None \<and>
   node_at (snd (undeploy_from_game posix_env managed_order fs_deployed)) (game_dir posix_env) = Some Dir"
proof -
  have a: "real_dir fs_deployed (game_dir posix_env)"
    by (simp add: real_dir_def game_dir_def posix_env_def fs_deployed_def)
  have b: "set managed_order = MANAGED_TOP_FOLDERS"
    by (auto simp: managed_order_def MANAGED_TOP_FOLDERS_def)
  have c: "\<forall>n\<in>MANAGED_TOP_FOLDERS. \<not> prefix (game_dir posix_env @ [n]) [''game'', ''saves'', ''slot1'']"
    by (simp add: MANAGED_TOP_FOLDERS_def game_dir_def posix_env_def)
  have d: "map_of fs_deployed [''game'', ''saves'', ''slot1''] = Some (File ''s'')"
    by (simp add: fs_deployed_def)
  have e: "map_of (snd (undeploy_from_game posix_env managed_order fs_deployed)) [''game'', ''audio''] = None"
    by (simp add: undeploy_eval)
  from undeployer_frame[OF a b] a b c d e show ?thesis by simp
qed


subsection \<open>C9: the tree merger adds and overwrites\<close>




end
